theory Spec2Isabelle
  imports Complex_Main "HOL-Library.Word" "HOL-Library.Log_Nat"
begin

section \<open>IEEE 754 single precision, as the C++ type \<open>float\<close>\<close>

text \<open>
  Every component of \<open>Vec3\<close>, \<open>Vec4\<close>, \<open>Quat\<close> and \<open>Mat4\<close> in \<^verbatim>\<open>clay_math.hpp\<close> is a C++
  \<open>float\<close>. A value is its three bit fields: the sign bit, the 8-bit biased exponent and
  the 23-bit fraction. Exponent 255 encodes the infinities (fraction 0) and the NaNs
  (fraction not 0); exponent 0 encodes the zeros and the subnormal numbers.
\<close>

datatype float = Float (sign: bool) (expo: "8 word") (frac: "23 word")

definition is_nan :: "float \<Rightarrow> bool" where
  "is_nan a \<longleftrightarrow> expo a = 255 \<and> frac a \<noteq> 0"

definition is_inf :: "float \<Rightarrow> bool" where
  "is_inf a \<longleftrightarrow> expo a = 255 \<and> frac a = 0"

definition is_zero :: "float \<Rightarrow> bool" where
  "is_zero a \<longleftrightarrow> expo a = 0 \<and> frac a = 0"

definition is_finite :: "float \<Rightarrow> bool" where
  "is_finite a \<longleftrightarrow> expo a \<noteq> 255"

text \<open>
  The magnitude of a float is \<open>mant * 2 ^ expn\<close>. For an infinity the same formula gives
  \<open>2 ^ 128\<close>, above every finite float, which is what the comparisons need.
\<close>

definition mant :: "float \<Rightarrow> int" where
  "mant a = (if expo a = 0 then uint (frac a) else 2 ^ 23 + uint (frac a))"

definition expn :: "float \<Rightarrow> int" where
  "expn a = (if expo a = 0 then - 149 else uint (expo a) - 150)"

definition mag :: "float \<Rightarrow> rat" where
  "mag a = of_int (mant a) * 2 powi expn a"

definition valof :: "float \<Rightarrow> rat" where
  "valof a = (if sign a then - mag a else mag a)"

subsection \<open>Rounding to nearest, ties to even\<close>

definition rne :: "rat \<Rightarrow> int" where
  "rne x = (let f = \<lfloor>x\<rfloor>; d = x - of_int f
            in if d < 1 / 2 then f
               else if 1 / 2 < d then f + 1
               else if even f then f else f + 1)"

text \<open>The exponent of the leading bit of a positive rational: \<open>\<lfloor>log\<^sub>2 x\<rfloor>\<close>.\<close>

definition ilog2 :: "rat \<Rightarrow> int" where
  "ilog2 x = (let (n, d) = quotient_of x; k = bitlen n - bitlen d
              in if 2 powi k \<le> x then k else k - 1)"

text \<open>
  \<open>fround s a\<close> is the float of sign \<open>s\<close> nearest to the magnitude \<open>a \<ge> 0\<close>: 24 significant
  bits, fewer below \<open>2 ^ - 126\<close> (subnormal), and an infinity from \<open>2 ^ 128 - 2 ^ 103\<close> on.
\<close>

definition fround :: "bool \<Rightarrow> rat \<Rightarrow> float" where
  "fround s a =
     (if a = 0 then Float s 0 0
      else let e0 = max (ilog2 a - 23) (- 149);
               m0 = rne (a / 2 powi e0);
               e = (if m0 = 2 ^ 24 then e0 + 1 else e0);
               m = (if m0 = 2 ^ 24 then 2 ^ 23 else m0)
           in if 104 < e then Float s 255 0
              else if m < 2 ^ 23 then Float s 0 (of_int m)
              else Float s (of_int (e + 150)) (of_int (m - 2 ^ 23)))"

definition float_of_rat :: "rat \<Rightarrow> float" where
  "float_of_rat q = fround (q < 0) \<bar>q\<bar>"

subsection \<open>Arithmetic and comparisons\<close>

text \<open>
  The standard fixes that an invalid operation returns a quiet NaN, not which one. The
  model returns this one; no statement below depends on its sign or payload.
\<close>

definition default_nan :: float where
  "default_nan = Float False 255 (2 ^ 22)"

definition fneg :: "float \<Rightarrow> float" where
  "fneg a = Float (\<not> sign a) (expo a) (frac a)"

definition fadd :: "float \<Rightarrow> float \<Rightarrow> float" where
  "fadd a b =
     (if is_nan a \<or> is_nan b \<or> (is_inf a \<and> is_inf b \<and> sign a \<noteq> sign b) then default_nan
      else if is_inf a then a
      else if is_inf b then b
      else let r = valof a + valof b
           in if r = 0 then Float (sign a \<and> sign b) 0 0
              else fround (r < 0) \<bar>r\<bar>)"

definition fsub :: "float \<Rightarrow> float \<Rightarrow> float" where
  "fsub a b = fadd a (fneg b)"

definition fmul :: "float \<Rightarrow> float \<Rightarrow> float" where
  "fmul a b =
     (if is_nan a \<or> is_nan b \<or> (is_inf a \<and> is_zero b) \<or> (is_zero a \<and> is_inf b)
      then default_nan
      else if is_inf a \<or> is_inf b then Float (sign a \<noteq> sign b) 255 0
      else fround (sign a \<noteq> sign b) (mag a * mag b))"

definition fdiv :: "float \<Rightarrow> float \<Rightarrow> float" where
  "fdiv a b =
     (if is_nan a \<or> is_nan b \<or> (is_inf a \<and> is_inf b) \<or> (is_zero a \<and> is_zero b)
      then default_nan
      else if is_inf a \<or> is_zero b then Float (sign a \<noteq> sign b) 255 0
      else if is_inf b then Float (sign a \<noteq> sign b) 0 0
      else fround (sign a \<noteq> sign b) (mag a / mag b))"

text \<open>\<open>==\<close>, \<open><\<close> and \<open>>=\<close> on floats: false as soon as one side is a NaN; \<open>-0.0 == 0.0\<close>.\<close>

definition feq :: "float \<Rightarrow> float \<Rightarrow> bool" where
  "feq a b \<longleftrightarrow> \<not> is_nan a \<and> \<not> is_nan b \<and> valof a = valof b"



text \<open>
  The arithmetic operators of the source are written with HOL's operator symbols. The
  classes are the syntactic ones only: no algebraic law is assumed of float arithmetic.
\<close>

instantiation float :: "{zero, one, plus, minus, uminus, times, inverse}"
begin

definition zero_float :: float where "zero_float = Float False 0 0"
definition one_float :: float where "one_float = Float False 127 0"
definition plus_float :: "float \<Rightarrow> float \<Rightarrow> float" where "plus_float = fadd"
definition minus_float :: "float \<Rightarrow> float \<Rightarrow> float" where "minus_float = fsub"
definition uminus_float :: "float \<Rightarrow> float" where "uminus_float = fneg"
definition times_float :: "float \<Rightarrow> float \<Rightarrow> float" where "times_float = fmul"
definition divide_float :: "float \<Rightarrow> float \<Rightarrow> float" where "divide_float = fdiv"
definition inverse_float :: "float \<Rightarrow> float" where "inverse_float = fdiv (Float False 127 0)"

instance ..

end

subsection \<open>Square root\<close>

function isqrt :: "int \<Rightarrow> int" where
  "isqrt n = (if n < 2 then n
              else let r = 2 * isqrt (n div 4)
                   in if (r + 1) * (r + 1) \<le> n then r + 1 else r)"
  by pat_completeness auto
termination
proof (relation "measure nat")
  show "wf (measure nat)" by simp
next
  fix n :: int
  assume "\<not> n < 2"
  then show "(n div 4, n) \<in> measure nat" by simp
qed

declare isqrt.simps [simp del]

text \<open>
  \<open>sqrt\<close> is correctly rounded. The mantissa is scaled by \<open>4 ^ 26\<close> so that the integer root
  has at least 27 bits; half a unit stands for the discarded, non-zero rest of an inexact
  root (it can neither create nor hide a tie at 24 bits).
\<close>

definition fsqrt :: "float \<Rightarrow> float" where
  "fsqrt a =
     (if is_nan a then default_nan
      else if is_zero a then a
      else if sign a then default_nan
      else if is_inf a then a
      else let m = (if even (expn a) then mant a else 2 * mant a);
               e = (if even (expn a) then expn a else expn a - 1);
               n = m * 4 ^ 26;
               s = isqrt n;
               r = (of_int s + (if s * s = n then 0 else 1 / 2)) * 2 powi (e div 2 - 26)
           in fround False r)"


subsection \<open>Conversions between \<open>float\<close> and \<open>int\<close>\<close>





subsection \<open>Library functions outside the repository\<close>

text \<open>
  \<open>sin\<close>, \<open>cos\<close> and \<open>acos\<close> come from the C library, whose results the standard does not
  fix bit for bit. They are parameters of the functions that call them.
\<close>

record libm =
  libm_sin :: "float \<Rightarrow> float"
  libm_cos :: "float \<Rightarrow> float"
  libm_acos :: "float \<Rightarrow> float"

section \<open>Vectors\<close>

datatype Vec3 = Vec3 (Vec3_x: float) (Vec3_y: float) (Vec3_z: float)

datatype Vec4 = Vec4 (Vec4_x: float) (Vec4_y: float) (Vec4_z: float) (Vec4_w: float)

definition Vec3_dot :: "Vec3 \<Rightarrow> Vec3 \<Rightarrow> float" where
  "Vec3_dot this other =
     Vec3_x this * Vec3_x other + Vec3_y this * Vec3_y other + Vec3_z this * Vec3_z other"

definition Vec3_length :: "Vec3 \<Rightarrow> float" where
  "Vec3_length this = fsqrt (Vec3_dot this this)"

text \<open>\<open>Vec3::operator/(float)\<close>\<close>

definition Vec3_div :: "Vec3 \<Rightarrow> float \<Rightarrow> Vec3" where
  "Vec3_div this v = Vec3 (Vec3_x this / v) (Vec3_y this / v) (Vec3_z this / v)"

definition Vec3_normalize :: "Vec3 \<Rightarrow> Vec3" where
  "Vec3_normalize this = Vec3_div this (Vec3_length this)"

section \<open>Quaternions\<close>

datatype Quat = Quat (Quat_i: float) (Quat_j: float) (Quat_k: float) (Quat_r: float)

definition Quat_conjugate :: "Quat \<Rightarrow> Quat" where
  "Quat_conjugate this = Quat (- Quat_i this) (- Quat_j this) (- Quat_k this) (Quat_r this)"


text \<open>\<open>Quat::operator*(const Quat &)\<close>\<close>

definition Quat_mul :: "Quat \<Rightarrow> Quat \<Rightarrow> Quat" where
  "Quat_mul this b =
     (let i = Quat_i this; j = Quat_j this; k = Quat_k this; r = Quat_r this
      in Quat
           (i * Quat_r b + j * Quat_k b - k * Quat_j b + r * Quat_i b)
           (- i * Quat_k b + j * Quat_r b + k * Quat_i b + r * Quat_j b)
           (i * Quat_j b - j * Quat_i b + k * Quat_r b + r * Quat_k b)
           (- i * Quat_i b - j * Quat_j b - k * Quat_k b + r * Quat_r b))"

text \<open>\<open>Quat::operator*(const Vec4 &)\<close>\<close>

definition Quat_mul_Vec4 :: "Quat \<Rightarrow> Vec4 \<Rightarrow> Vec4" where
  "Quat_mul_Vec4 this v =
     (let q = Quat (Vec4_x v) (Vec4_y v) (Vec4_z v) 0;
          result = Quat_mul q (Quat_conjugate this);
          result = Quat_mul this result
      in Vec4 (Quat_i result) (Quat_j result) (Quat_k result) 1)"

text \<open>\<open>Quat::operator*(const Vec3 &)\<close>\<close>

definition Quat_mul_Vec3 :: "Quat \<Rightarrow> Vec3 \<Rightarrow> Vec3" where
  "Quat_mul_Vec3 this v =
     (let result = Quat_mul_Vec4 this (Vec4 (Vec3_x v) (Vec3_y v) (Vec3_z v) 1)
      in Vec3 (Vec4_x result) (Vec4_y result) (Vec4_z result))"

definition from_axis_angle :: "libm \<Rightarrow> Vec3 \<Rightarrow> float \<Rightarrow> Quat" where
  "from_axis_angle lm axis angle =
     (let half_angle = angle / float_of_rat 2;
          s = libm_sin lm half_angle
      in Quat (Vec3_x axis * s) (Vec3_y axis * s) (Vec3_z axis * s) (libm_cos lm half_angle))"


section \<open>4x4 matrices\<close>

text \<open>\<open>float data[16]\<close>: a \<open>Mat4\<close> of the program is a list of 16 floats.\<close>

datatype Mat4 = Mat4 (Mat4_data: "float list")

definition Mat4_wf :: "Mat4 \<Rightarrow> bool" where
  "Mat4_wf m \<longleftrightarrow> length (Mat4_data m) = 16"

text \<open>\<open>m.data[i] = v\<close>\<close>

definition Mat4_set :: "Mat4 \<Rightarrow> nat \<Rightarrow> float \<Rightarrow> Mat4" where
  "Mat4_set m i v = Mat4 ((Mat4_data m)[i := v])"

text \<open>The default constructor \<open>Mat4()\<close>: sixteen assignments of \<open>0.0f\<close>.\<close>

definition Mat4_default :: Mat4 where
  "Mat4_default = Mat4 (replicate 16 0)"

text \<open>The constructor of sixteen arguments stores them in the order given.\<close>

definition Mat4_of ::
  "float \<Rightarrow> float \<Rightarrow> float \<Rightarrow> float \<Rightarrow> float \<Rightarrow> float \<Rightarrow> float \<Rightarrow> float \<Rightarrow>
   float \<Rightarrow> float \<Rightarrow> float \<Rightarrow> float \<Rightarrow> float \<Rightarrow> float \<Rightarrow> float \<Rightarrow> float \<Rightarrow> Mat4" where
  "Mat4_of m00 m01 m02 m03 m10 m11 m12 m13 m20 m21 m22 m23 m30 m31 m32 m33 =
     Mat4 [m00, m01, m02, m03, m10, m11, m12, m13, m20, m21, m22, m23, m30, m31, m32, m33]"

definition identity :: Mat4 where
  "identity = Mat4_of 1 0 0 0  0 1 0 0  0 0 1 0  0 0 0 1"

text \<open>
  \<open>determinant\<close>, \<open>transpose\<close>, \<open>cofactor\<close> and \<open>inverse\<close> (here \<open>transpose_Mat4\<close> and
  \<open>inverse_Mat4\<close>, the plain names being taken) are not declared \<open>const\<close>, so each
  is modelled with the receiver threaded through: the result is the pair of the returned
  value and of \<open>*this\<close> after the call.
\<close>

definition determinant :: "Mat4 \<Rightarrow> float \<times> Mat4" where
  "determinant this =
     (let d = Mat4_data this;
          det = 0;
          det = det + d ! 0 * (d ! 5 * (d ! 10 * d ! 15 - d ! 11 * d ! 14)
                  - d ! 6 * (d ! 9 * d ! 15 - d ! 11 * d ! 13)
                  + d ! 7 * (d ! 9 * d ! 14 - d ! 10 * d ! 13));
          det = det - d ! 1 * (d ! 4 * (d ! 10 * d ! 15 - d ! 11 * d ! 14)
                  - d ! 6 * (d ! 8 * d ! 15 - d ! 11 * d ! 12)
                  + d ! 7 * (d ! 8 * d ! 14 - d ! 10 * d ! 12));
          det = det + d ! 2 * (d ! 4 * (d ! 9 * d ! 15 - d ! 11 * d ! 13)
                  - d ! 5 * (d ! 8 * d ! 15 - d ! 11 * d ! 12)
                  + d ! 7 * (d ! 8 * d ! 13 - d ! 9 * d ! 12));
          det = det - d ! 3 * (d ! 4 * (d ! 9 * d ! 14 - d ! 10 * d ! 13)
                  - d ! 5 * (d ! 8 * d ! 14 - d ! 10 * d ! 12)
                  + d ! 6 * (d ! 8 * d ! 13 - d ! 9 * d ! 12))
      in (det, this))"

definition transpose_Mat4 :: "Mat4 \<Rightarrow> Mat4 \<times> Mat4" where
  "transpose_Mat4 this =
     (let d = Mat4_data this
      in (Mat4_of (d ! 0) (d ! 4) (d ! 8) (d ! 12)
                  (d ! 1) (d ! 5) (d ! 9) (d ! 13)
                  (d ! 2) (d ! 6) (d ! 10) (d ! 14)
                  (d ! 3) (d ! 7) (d ! 11) (d ! 15), this))"

definition cofactor :: "Mat4 \<Rightarrow> Mat4 \<times> Mat4" where
  "cofactor this =
     (let d = Mat4_data this;
          result = Mat4_default;
          result = Mat4_set result 0
            (d ! 5 * (d ! 10 * d ! 15 - d ! 11 * d ! 14)
               - d ! 6 * (d ! 9 * d ! 15 - d ! 11 * d ! 13)
               + d ! 7 * (d ! 9 * d ! 14 - d ! 10 * d ! 13));
          result = Mat4_set result 1
            (- (d ! 4 * (d ! 10 * d ! 15 - d ! 11 * d ! 14)
               - d ! 6 * (d ! 8 * d ! 15 - d ! 11 * d ! 12)
               + d ! 7 * (d ! 8 * d ! 14 - d ! 10 * d ! 12)));
          result = Mat4_set result 2
            (d ! 4 * (d ! 9 * d ! 15 - d ! 11 * d ! 13)
               - d ! 5 * (d ! 8 * d ! 15 - d ! 11 * d ! 12)
               + d ! 7 * (d ! 8 * d ! 13 - d ! 9 * d ! 12));
          result = Mat4_set result 3
            (- (d ! 4 * (d ! 9 * d ! 14 - d ! 10 * d ! 13)
               - d ! 5 * (d ! 8 * d ! 14 - d ! 10 * d ! 12)
               + d ! 6 * (d ! 8 * d ! 13 - d ! 9 * d ! 12)));
          result = Mat4_set result 4
            (- (d ! 1 * (d ! 10 * d ! 15 - d ! 11 * d ! 14)
               - d ! 2 * (d ! 9 * d ! 15 - d ! 11 * d ! 13)
               + d ! 3 * (d ! 9 * d ! 14 - d ! 10 * d ! 13)));
          result = Mat4_set result 5
            (d ! 0 * (d ! 10 * d ! 15 - d ! 11 * d ! 14)
               - d ! 2 * (d ! 8 * d ! 15 - d ! 11 * d ! 12)
               + d ! 3 * (d ! 8 * d ! 14 - d ! 10 * d ! 12));
          result = Mat4_set result 6
            (- (d ! 0 * (d ! 9 * d ! 15 - d ! 11 * d ! 13)
               - d ! 1 * (d ! 8 * d ! 15 - d ! 11 * d ! 12)
               + d ! 3 * (d ! 8 * d ! 13 - d ! 9 * d ! 12)));
          result = Mat4_set result 7
            (d ! 0 * (d ! 9 * d ! 14 - d ! 10 * d ! 13)
               - d ! 1 * (d ! 8 * d ! 14 - d ! 10 * d ! 12)
               + d ! 2 * (d ! 8 * d ! 13 - d ! 9 * d ! 12));
          result = Mat4_set result 8
            (d ! 1 * (d ! 6 * d ! 15 - d ! 7 * d ! 14)
               - d ! 2 * (d ! 5 * d ! 15 - d ! 7 * d ! 13)
               + d ! 3 * (d ! 5 * d ! 14 - d ! 6 * d ! 13));
          result = Mat4_set result 9
            (- (d ! 0 * (d ! 6 * d ! 15 - d ! 7 * d ! 14)
               - d ! 2 * (d ! 4 * d ! 15 - d ! 7 * d ! 12)
               + d ! 3 * (d ! 4 * d ! 14 - d ! 6 * d ! 12)));
          result = Mat4_set result 10
            (d ! 0 * (d ! 5 * d ! 15 - d ! 7 * d ! 13)
               - d ! 1 * (d ! 4 * d ! 15 - d ! 7 * d ! 12)
               + d ! 3 * (d ! 4 * d ! 13 - d ! 5 * d ! 12));
          result = Mat4_set result 11
            (- (d ! 0 * (d ! 5 * d ! 14 - d ! 6 * d ! 13)
               - d ! 1 * (d ! 4 * d ! 14 - d ! 6 * d ! 12)
               + d ! 2 * (d ! 4 * d ! 13 - d ! 5 * d ! 12)));
          result = Mat4_set result 12
            (- (d ! 1 * (d ! 6 * d ! 11 - d ! 7 * d ! 10)
               - d ! 2 * (d ! 5 * d ! 11 - d ! 7 * d ! 9)
               + d ! 3 * (d ! 5 * d ! 10 - d ! 6 * d ! 9)));
          result = Mat4_set result 13
            (d ! 0 * (d ! 6 * d ! 11 - d ! 7 * d ! 10)
               - d ! 2 * (d ! 4 * d ! 11 - d ! 7 * d ! 8)
               + d ! 3 * (d ! 4 * d ! 10 - d ! 6 * d ! 8));
          result = Mat4_set result 14
            (- (d ! 0 * (d ! 5 * d ! 11 - d ! 7 * d ! 9)
               - d ! 1 * (d ! 4 * d ! 11 - d ! 7 * d ! 8)
               + d ! 3 * (d ! 4 * d ! 9 - d ! 5 * d ! 8)));
          result = Mat4_set result 15
            (d ! 0 * (d ! 5 * d ! 10 - d ! 6 * d ! 9)
               - d ! 1 * (d ! 4 * d ! 10 - d ! 6 * d ! 8)
               + d ! 2 * (d ! 4 * d ! 9 - d ! 5 * d ! 8))
      in (result, this))"

definition inverse_Mat4 :: "Mat4 \<Rightarrow> Mat4 \<times> Mat4" where
  "inverse_Mat4 this =
     (let result = this;
          (det, this) = determinant this
      in if feq det 0 then (result, this)
         else let (cof, this) = cofactor this;
                  (transpose_matrix, cof) = transpose_Mat4 cof;
                  result = fold (\<lambda>i result.
                             Mat4_set result i (Mat4_data transpose_matrix ! i / det))
                           [0..<16] result
              in (result, this))"

text \<open>\<open>translate\<close> and \<open>scale\<close> return \<open>void\<close> and update \<open>*this\<close>: the model returns the new receiver.\<close>

definition translate :: "Mat4 \<Rightarrow> Vec3 \<Rightarrow> Mat4" where
  "translate this translation =
     (let this = Mat4_set this 12 (Mat4_data this ! 12 + Vec3_x translation);
          this = Mat4_set this 13 (Mat4_data this ! 13 + Vec3_y translation);
          this = Mat4_set this 14 (Mat4_data this ! 14 + Vec3_z translation)
      in this)"

definition scale :: "Mat4 \<Rightarrow> Vec3 \<Rightarrow> Mat4" where
  "scale this s =
     (let this = Mat4_set this 0 (Mat4_data this ! 0 * Vec3_x s);
          this = Mat4_set this 5 (Mat4_data this ! 5 * Vec3_y s);
          this = Mat4_set this 10 (Mat4_data this ! 10 * Vec3_z s)
      in this)"

definition ortho :: "float \<Rightarrow> float \<Rightarrow> float \<Rightarrow> float \<Rightarrow> float \<Rightarrow> float \<Rightarrow> Mat4" where
  "ortho left right bottom top' near far =
     (let result = identity;
          result = Mat4_set result 0 (float_of_rat 2 / (right - left));
          result = Mat4_set result 5 (float_of_rat 2 / (top' - bottom));
          result = Mat4_set result 10 (- float_of_rat 2 / (far - near));
          result = Mat4_set result 12 (- (right + left) / (right - left));
          result = Mat4_set result 13 (- (top' + bottom) / (top' - bottom));
          result = Mat4_set result 14 (- (far + near) / (far - near))
      in result)"

text \<open>\<open>Mat4::operator*(const Mat4 &)\<close>: the two nested loops over \<open>i\<close> and \<open>j\<close>.\<close>

definition Mat4_mul :: "Mat4 \<Rightarrow> Mat4 \<Rightarrow> Mat4" where
  "Mat4_mul this other =
     fold (\<lambda>i result.
       fold (\<lambda>j result.
         Mat4_set result (i * 4 + j)
           (Mat4_data this ! (i * 4 + 0) * Mat4_data other ! (j + 0)
              + Mat4_data this ! (i * 4 + 1) * Mat4_data other ! (j + 4)
              + Mat4_data this ! (i * 4 + 2) * Mat4_data other ! (j + 8)
              + Mat4_data this ! (i * 4 + 3) * Mat4_data other ! (j + 12)))
         [0..<4] result)
       [0..<4] Mat4_default"


section \<open>Values of the quarter-turn scenario\<close>

text \<open>
  \<open>pi_half_f\<close> is the float \<open>0x3FC90FDB\<close>, the one nearest to \<open>\<pi>/2\<close> (lemma
  \<open>pi_half_f_nearest\<close>): what \<open>(float) (M_PI / 2)\<close> denotes. Half of it is the argument
  of \<open>sin\<close> and \<open>cos\<close> in \<open>from_axis_angle\<close>; as a real number it is \<open>half_angle_r\<close>. The
  floats next to \<open>\<surd>2/2\<close> are \<open>half_sqrt2_dn < half_sqrt2 < half_sqrt2_up\<close>, one unit in the
  last place apart. \<open>libm_sample\<close> is a \<open>libm\<close> that returns, whatever the argument, the
  float nearest to the sine and to the cosine of \<open>half_angle_r\<close>.
\<close>

definition pi_half_f :: float where
  "pi_half_f = Float False 127 4788187"

definition half_sqrt2_dn :: float where "half_sqrt2_dn = Float False 126 3474674"

definition half_sqrt2 :: float where "half_sqrt2 = Float False 126 3474675"

definition half_sqrt2_up :: float where "half_sqrt2_up = Float False 126 3474676"

definition half_angle_r :: real where "half_angle_r = 13176795 / 16777216"

definition libm_sample :: libm where
  "libm_sample = \<lparr>libm_sin = (\<lambda>_. half_sqrt2), libm_cos = (\<lambda>_. half_sqrt2), libm_acos = (\<lambda>_. 0)\<rparr>"

definition sin_taylor :: "real \<Rightarrow> real" where
  "sin_taylor x = x - x^3/6 + x^5/120 - x^7/5040 + x^9/362880 - x^11/39916800"

text \<open>
  \<open>same_value a x\<close>: \<open>a\<close> is \<open>x\<close> bit for bit, or both are zeros (of either sign). For a
  finite \<open>x\<close> this implies \<open>a == x\<close>.
\<close>

definition same_value :: "float \<Rightarrow> float \<Rightarrow> bool" where
  "same_value a x \<longleftrightarrow> (if is_zero x then is_zero a else a = x)"

section \<open>Values of the slerp scenarios\<close>





section \<open>Values of the normalize scenarios\<close>

text \<open>
  \<open>normalize_big\<close> is \<open>(2 ^ 100, 0, 0)\<close>: its squared length overflows. \<open>normalize_small\<close> is
  \<open>(1.5 * 2 ^ - 74, 0, 0)\<close>: its squared length is \<open>4.5 * 2 ^ - 149\<close>, between two subnormal
  floats. \<open>normalize_rounded\<close> is \<open>(1.9861068, 3.6869156, 0.21707167)\<close>, three floats of
  ordinary size.
\<close>

definition normalize_big :: Vec3 where
  "normalize_big = Vec3 (Float False 227 0) 0 0"

definition normalize_small :: Vec3 where
  "normalize_small = Vec3 (Float False 53 4194304) 0 0"

definition normalize_rounded :: Vec3 where
  "normalize_rounded =
     Vec3 (Float False 127 8272063) (Float False 128 7075437) (Float False 124 6178825)"

section \<open>Measuring rounding errors\<close>

text \<open>
  One rounding to nearest changes a magnitude \<open>a\<close> by at most \<open>a / 2 ^ 24\<close> in the normal range
  and by at most \<open>2 ^ - 150\<close> (\<open>eta\<close>) below it. \<open>near k t a b\<close> says that \<open>a\<close> is \<open>b\<close> up to \<open>k\<close>
  factors \<open>1 + eps\<close> and \<open>t\<close> absolute errors \<open>eta\<close>, where \<open>eps\<close> is a little above \<open>2 ^ - 24\<close>
  so that \<open>1 - 2 ^ - 24\<close> is at least \<open>1 / (1 + eps)\<close>. \<open>rmag\<close> is the magnitude of a float as a
  real number.
\<close>

definition eps :: real where "eps = 1 / 2 ^ 24 + 1 / 2 ^ 47"
definition eta :: real where "eta = 1 / 2 ^ 150"

definition near :: "nat \<Rightarrow> nat \<Rightarrow> real \<Rightarrow> real \<Rightarrow> bool" where
  "near k t a b \<longleftrightarrow>
     b / (1 + eps) ^ k - of_nat t * eta \<le> a \<and> a \<le> b * (1 + eps) ^ k + of_nat t * eta"

definition rmag :: "float \<Rightarrow> real" where
  "rmag a = of_rat (mag a)"

section \<open>Facts about rounding\<close>

lemma two_powi_mono: "m \<le> n \<Longrightarrow> (2::rat) powi m \<le> 2 powi n"
  by (rule power_int_increasing) simp_all

lemma two_powi_strict: "m < n \<Longrightarrow> (2::rat) powi m < 2 powi n"
  by (rule power_int_strict_increasing) simp_all

lemma two_powi_pos: "0 < (2::rat) powi n"
  by simp

lemma two_powi_add: "(2::rat) powi (m + n) = 2 powi m * 2 powi n"
  by (rule power_int_add) simp

lemma two_powi_diff: "(2::rat) powi (m - n) = 2 powi m / 2 powi n"
  by (rule power_int_diff) simp

lemma bitlen_powi:
  assumes "0 < n"
  shows "(2::rat) powi (bitlen n - 1) \<le> of_int n" and "of_int n < (2::rat) powi bitlen n"
proof -
  have b1: "1 \<le> bitlen n"
    using assms bitlen_eq_zero_iff [of n] bitlen_nonneg [of n] by linarith
  have "(2::int) ^ nat (bitlen n - 1) \<le> n" and "n < 2 ^ nat (bitlen n)"
    using bitlen_bounds [OF assms] by simp_all
  then have "(of_int (2 ^ nat (bitlen n - 1)) :: rat) \<le> of_int n"
    and "(of_int n :: rat) < of_int (2 ^ nat (bitlen n))"
    by (simp_all only: of_int_le_iff of_int_less_iff)
  then show "(2::rat) powi (bitlen n - 1) \<le> of_int n" and "of_int n < (2::rat) powi bitlen n"
    using b1 by (simp_all add: power_int_nonneg_exp)
qed

lemma ilog2_bounds:
  assumes "0 < x"
  shows "2 powi ilog2 x \<le> x" and "x < 2 powi (ilog2 x + 1)"
proof -
  obtain n d where q: "quotient_of x = (n, d)" by force
  have d: "0 < d" using quotient_of_denom_pos [OF q] .
  have x: "x = of_int n / of_int d" using quotient_of_div [OF q] .
  have n: "0 < n" using assms d x by (simp add: zero_less_divide_iff)
  define k where "k = bitlen n - bitlen d"
  have up: "x < 2 powi (k + 1)"
  proof -
    have "of_int n < (2::rat) powi bitlen n" using bitlen_powi [OF n] by simp
    moreover have "(2::rat) powi (bitlen d - 1) \<le> of_int d" using bitlen_powi [OF d] by simp
    ultimately have "of_int n * (2::rat) powi (bitlen d - 1) < 2 powi bitlen n * of_int d"
      using d n by (intro mult_less_le_imp_less) simp_all
    then have "x * 2 powi (bitlen d - 1) < 2 powi bitlen n"
      using d by (simp add: x field_simps)
    then have "x < 2 powi bitlen n / 2 powi (bitlen d - 1)"
      by (simp add: pos_less_divide_eq)
    moreover have "k + 1 = bitlen n - (bitlen d - 1)"
      by (simp add: k_def)
    then have "(2::rat) powi (k + 1) = 2 powi bitlen n / 2 powi (bitlen d - 1)"
      by (simp only: two_powi_diff)
    ultimately show ?thesis by simp
  qed
  have lo: "2 powi (k - 1) \<le> x"
  proof -
    have "(2::rat) powi (bitlen n - 1) \<le> of_int n" using bitlen_powi [OF n] by simp
    moreover have "of_int d \<le> (2::rat) powi bitlen d" using bitlen_powi [OF d] by simp
    ultimately have "(2::rat) powi (bitlen n - 1) * of_int d \<le> of_int n * 2 powi bitlen d"
      using n d by (intro mult_mono) simp_all
    then have "2 powi (bitlen n - 1) / 2 powi bitlen d \<le> x"
      using d by (simp add: x field_simps)
    moreover have "k - 1 = bitlen n - 1 - bitlen d"
      by (simp add: k_def)
    then have "(2::rat) powi (k - 1) = 2 powi (bitlen n - 1) / 2 powi bitlen d"
      by (simp only: two_powi_diff)
    ultimately show ?thesis by simp
  qed
  have il: "ilog2 x = (if 2 powi k \<le> x then k else k - 1)"
    by (simp add: ilog2_def q k_def Let_def)
  show "2 powi ilog2 x \<le> x" using lo by (simp add: il)
  show "x < 2 powi (ilog2 x + 1)" using up by (auto simp add: il not_le)
qed

lemma ilog2_unique:
  assumes "2 powi k \<le> x" and "x < 2 powi (k + 1)"
  shows "ilog2 x = k"
proof -
  have x: "0 < x" using assms(1) two_powi_pos [of k] by linarith
  note b = ilog2_bounds [OF x]
  have "\<not> ilog2 x < k"
  proof
    assume "ilog2 x < k"
    then have "(2::rat) powi (ilog2 x + 1) \<le> 2 powi k" by (intro two_powi_mono) simp
    with b(2) assms(1) show False by linarith
  qed
  moreover have "\<not> k < ilog2 x"
  proof
    assume "k < ilog2 x"
    then have "(2::rat) powi (k + 1) \<le> 2 powi ilog2 x" by (intro two_powi_mono) simp
    with b(1) assms(2) show False by linarith
  qed
  ultimately show ?thesis by linarith
qed

lemma rne_of_int [simp]: "rne (of_int n) = n"
  by (simp add: rne_def)


lemma fround_normal:
  assumes m: "2 ^ 23 \<le> m" "m < 2 ^ 24" and e: "- 149 \<le> e" "e \<le> 104"
  shows "fround s (of_int m * 2 powi e) = Float s (of_int (e + 150)) (of_int (m - 2 ^ 23))"
proof -
  let ?a = "(of_int m :: rat) * 2 powi e"
  have "(of_int ((2::int) ^ 23) :: rat) \<le> of_int m" "(of_int m :: rat) < of_int ((2::int) ^ 24)"
    using m by (simp_all only: of_int_le_iff of_int_less_iff)
  then have mr: "(2::rat) ^ 23 \<le> of_int m" "(of_int m :: rat) < 2 ^ 24"
    by simp_all
  have mpos: "(0::rat) < of_int m" using m(1) by simp
  have a0: "?a \<noteq> 0" using mpos by simp
  have p1: "(2::rat) powi (e + 23) = 2 powi e * 2 ^ 23"
    using two_powi_add [of e 23] by simp
  have p2: "(2::rat) powi (e + 23 + 1) = 2 powi e * 2 ^ 24"
    using two_powi_add [of e 24] by (simp add: add.assoc)
  have lo: "2 powi (e + 23) \<le> ?a"
    unfolding p1 using mr(1) by (simp add: mult.commute)
  have hi: "?a < 2 powi (e + 23 + 1)"
    unfolding p2 using mr(2) by (simp add: mult.commute)
  have il: "ilog2 ?a = e + 23" by (rule ilog2_unique [OF lo hi])
  have q: "?a / 2 powi e = of_int m" by simp
  have "fround s ?a = (let e0 = max (e + 23 - 23) (- 149);
               m0 = rne (?a / 2 powi e0);
               e = (if m0 = 2 ^ 24 then e0 + 1 else e0);
               m = (if m0 = 2 ^ 24 then 2 ^ 23 else m0)
           in if 104 < e then Float s 255 0
              else if m < 2 ^ 23 then Float s 0 (of_int m)
              else Float s (of_int (e + 150)) (of_int (m - 2 ^ 23)))"
    unfolding fround_def il using a0 by (simp only: if_False)
  also have "max (e + 23 - 23) (- 149) = e" using e by simp
  finally show ?thesis
    using m e by (simp only: Let_def q rne_of_int) simp
qed


lemma fround_subnormal:
  assumes m: "0 < m" "m < 2 ^ 23"
  shows "fround s (of_int m * 2 powi (- 149)) = Float s 0 (of_int m)"
proof -
  let ?a = "(of_int m :: rat) * 2 powi (- 149)"
  have "(of_int m :: rat) < of_int ((2::int) ^ 23)"
    using m by (simp only: of_int_less_iff)
  then have mr: "(of_int m :: rat) < 2 ^ 23" by simp
  have mpos: "(0::rat) < of_int m" using m(1) by simp
  have apos: "0 < ?a" using mpos by simp
  have a0: "?a \<noteq> 0" using apos by simp
  have p: "(2::rat) powi (- 126) = 2 powi (- 149) * 2 ^ 23"
    using two_powi_add [of "- 149" 23] by simp
  have hi: "?a < 2 powi (- 126)"
    unfolding p using mr by (simp add: mult.commute)
  have "\<not> - 126 \<le> ilog2 ?a"
  proof
    assume "- 126 \<le> ilog2 ?a"
    then have "(2::rat) powi (- 126) \<le> 2 powi ilog2 ?a" by (rule two_powi_mono)
    with ilog2_bounds(1) [OF apos] hi show False by linarith
  qed
  then have mx: "max (ilog2 ?a - 23) (- 149) = - 149" by simp
  have q: "?a / 2 powi (- 149) = of_int m" by simp
  have "fround s ?a = (let e0 = max (ilog2 ?a - 23) (- 149);
               m0 = rne (?a / 2 powi e0);
               e = (if m0 = 2 ^ 24 then e0 + 1 else e0);
               m = (if m0 = 2 ^ 24 then 2 ^ 23 else m0)
           in if 104 < e then Float s 255 0
              else if m < 2 ^ 23 then Float s 0 (of_int m)
              else Float s (of_int (e + 150)) (of_int (m - 2 ^ 23)))"
    unfolding fround_def using a0 by (simp only: if_False)
  then show ?thesis
    unfolding mx using m by (simp only: Let_def q rne_of_int) simp
qed

lemma uint_frac_bounds: "0 \<le> uint (w :: 23 word)" "uint (w :: 23 word) < 2 ^ 23"
  using uint_lt2p [of w] by simp_all

lemma uint_expo_bounds: "0 \<le> uint (w :: 8 word)" "uint (w :: 8 word) < 256"
  using uint_lt2p [of w] by simp_all

lemma mag_nonneg: "0 \<le> mag a"
  by (simp add: mag_def mant_def)

lemma mag_eq_0_iff: "mag a = 0 \<longleftrightarrow> is_zero a"
proof -
  have "uint (frac a) = 0 \<longleftrightarrow> frac a = 0" by (simp add: uint_0_iff)
  moreover have "(2::int) ^ 23 = 8388608" by simp
  then have "2 ^ 23 + uint (frac a) \<noteq> 0" using uint_frac_bounds(1) [of "frac a"] by linarith
  ultimately show ?thesis by (auto simp add: mag_def mant_def is_zero_def)
qed

lemma fround_mag:
  assumes "is_finite a"
  shows "fround s (mag a) = Float s (expo a) (frac a)"
proof (cases "expo a = 0")
  case True
  show ?thesis
  proof (cases "frac a = 0")
    case True
    with \<open>expo a = 0\<close> show ?thesis by (simp add: mag_def mant_def fround_def)
  next
    case False
    then have "uint (frac a) \<noteq> 0" by (simp add: uint_0_iff)
    then have "0 < uint (frac a)" using uint_frac_bounds(1) [of "frac a"] by linarith
    from fround_subnormal [OF this uint_frac_bounds(2)] True show ?thesis
      by (simp add: mag_def mant_def expn_def)
  qed
next
  case False
  then have "uint (expo a) \<noteq> 0" by (simp add: uint_0_iff)
  then have e1: "1 \<le> uint (expo a)" using uint_expo_bounds(1) [of "expo a"] by linarith
  have "uint (expo a) \<noteq> uint (255 :: 8 word)"
    using assms unfolding is_finite_def by (simp only: word_uint_eq_iff [symmetric] not_False_eq_True)
  then have e2: "uint (expo a) \<le> 254" using uint_expo_bounds(2) [of "expo a"] by simp
  have "fround s (of_int (2 ^ 23 + uint (frac a)) * 2 powi (uint (expo a) - 150))
      = Float s (of_int (uint (expo a) - 150 + 150)) (of_int (2 ^ 23 + uint (frac a) - 2 ^ 23))"
    using uint_frac_bounds [of "frac a"] e1 e2 by (intro fround_normal) simp_all
  with False show ?thesis
    by (simp add: mag_def mant_def expn_def)
qed


lemma rne_cases:
  "rne x = \<lfloor>x\<rfloor> \<and> x - of_int \<lfloor>x\<rfloor> \<le> 1 / 2
   \<or> rne x = \<lfloor>x\<rfloor> + 1 \<and> 1 / 2 \<le> x - of_int \<lfloor>x\<rfloor>"
  unfolding rne_def Let_def by (cases "x - of_int \<lfloor>x\<rfloor> < 1 / 2") auto

lemma rne_bounds: "of_int (rne x) - 1 / 2 \<le> x" "x \<le> of_int (rne x) + 1 / 2"
proof -
  have f: "of_int \<lfloor>x\<rfloor> \<le> x" "x < of_int \<lfloor>x\<rfloor> + 1" by linarith+
  have "of_int (rne x) - 1 / 2 \<le> x \<and> x \<le> of_int (rne x) + 1 / 2"
    using rne_cases [of x]
  proof
    assume h: "rne x = \<lfloor>x\<rfloor> \<and> x - of_int \<lfloor>x\<rfloor> \<le> 1 / 2"
    show ?thesis unfolding conjunct1 [OF h] using f h by linarith
  next
    assume h: "rne x = \<lfloor>x\<rfloor> + 1 \<and> 1 / 2 \<le> x - of_int \<lfloor>x\<rfloor>"
    have "(of_int (\<lfloor>x\<rfloor> + 1) :: rat) = of_int \<lfloor>x\<rfloor> + 1" by simp
    then show ?thesis unfolding conjunct1 [OF h] using f h by linarith
  qed
  then show "of_int (rne x) - 1 / 2 \<le> x" "x \<le> of_int (rne x) + 1 / 2"
    by simp_all
qed

lemma rne_mono_int:
  "of_int n \<le> x \<Longrightarrow> n \<le> rne x" "x \<le> of_int n \<Longrightarrow> rne x \<le> n"
proof -
  show "n \<le> rne x" if "of_int n \<le> x"
  proof -
    from that have "n \<le> \<lfloor>x\<rfloor>" by (simp add: le_floor_iff)
    then show ?thesis using rne_cases [of x] by auto
  qed
  show "rne x \<le> n" if "x \<le> of_int n"
  proof (cases "x = of_int n")
    case True
    then show ?thesis by simp
  next
    case False
    with that have "x < of_int n" by simp
    then have "\<lfloor>x\<rfloor> < n" by (simp add: floor_less_iff)
    then show ?thesis using rne_cases [of x] by auto
  qed
qed

lemma uint_of_int_8: "0 \<le> n \<Longrightarrow> n < 256 \<Longrightarrow> uint (of_int n :: 8 word) = n"
  by (simp add: uint_word_of_int take_bit_int_eq_self)

lemma uint_of_int_23: "0 \<le> n \<Longrightarrow> n < 2 ^ 23 \<Longrightarrow> uint (of_int n :: 23 word) = n"
  by (simp add: uint_word_of_int take_bit_int_eq_self)

lemma mag_Float_subnormal:
  "0 \<le> m \<Longrightarrow> m < 2 ^ 23 \<Longrightarrow> mag (Float s 0 (of_int m)) = of_int m * 2 powi (- 149)"
  by (simp add: mag_def mant_def expn_def uint_of_int_23)

lemma mag_Float_normal:
  assumes "2 ^ 23 \<le> m" "m < 2 ^ 24" "- 149 \<le> e" "e \<le> 104"
  shows "mag (Float s (of_int (e + 150)) (of_int (m - 2 ^ 23))) = of_int m * 2 powi e"
    and "is_finite (Float s (of_int (e + 150)) (of_int (m - 2 ^ 23)))"
proof -
  define E :: "8 word" where "E = of_int (e + 150)"
  define F :: "23 word" where "F = of_int (m - 2 ^ 23)"
  have e: "uint E = e + 150"
    unfolding E_def using assms by (intro uint_of_int_8) simp_all
  have f: "uint F = m - 2 ^ 23"
    unfolding F_def using assms by (intro uint_of_int_23) simp_all
  have n0: "E \<noteq> 0"
  proof
    assume "E = 0"
    then have "uint E = 0" by simp
    with e assms show False by simp
  qed
  have n255: "E \<noteq> 255"
  proof
    assume "E = 255"
    then have "uint E = 255" by simp
    with e assms show False by simp
  qed
  have "mag (Float s E F) = of_int m * 2 powi e"
    using n0 by (simp add: mag_def mant_def expn_def e f)
  then show "mag (Float s (of_int (e + 150)) (of_int (m - 2 ^ 23))) = of_int m * 2 powi e"
    by (simp only: E_def F_def)
  have "is_finite (Float s E F)"
    using n255 by (simp add: is_finite_def)
  then show "is_finite (Float s (of_int (e + 150)) (of_int (m - 2 ^ 23)))"
    by (simp only: E_def F_def)
qed

text \<open>The value that rounding produces, and its distance from the exact magnitude.\<close>

lemma fround_value:
  assumes a: "0 < a" "a \<le> 2 ^ 127"
  defines "e0 \<equiv> max (ilog2 a - 23) (- 149)"
  shows "is_finite (fround s a)" and "sign (fround s a) = s"
    and "mag (fround s a) = of_int (rne (a / 2 powi e0)) * 2 powi e0"
proof -
  let ?k = "ilog2 a"
  let ?x = "a / 2 powi e0"
  let ?m0 = "rne ?x"
  note kb = ilog2_bounds [OF a(1)]
  have k127: "?k \<le> 127"
  proof (rule ccontr)
    assume "\<not> ?k \<le> 127"
    then have "(2::rat) powi 128 \<le> 2 powi ?k" by (intro two_powi_mono) simp
    with kb(1) a(2) show False by simp
  qed
  have e0b: "- 149 \<le> e0" "e0 \<le> 104" using k127 by (simp_all add: e0_def)
  have xpos: "0 < ?x" using a(1) by simp
  have ax: "a = ?x * 2 powi e0" by simp
  \<comment> \<open>the scaled magnitude is below \<open>2 ^ 24\<close>, and at least \<open>2 ^ 23\<close> in the normal range\<close>
  have xhi: "?x < 2 ^ 24"
  proof -
    have "?k + 1 \<le> e0 + 24" by (simp add: e0_def)
    then have "(2::rat) powi (?k + 1) \<le> 2 powi (e0 + 24)" by (rule two_powi_mono)
    with kb(2) have "a < 2 powi (e0 + 24)" by simp
    also have "\<dots> = 2 powi e0 * 2 ^ 24" using two_powi_add [of e0 24] by simp
    finally show ?thesis by (simp add: pos_divide_less_eq mult.commute)
  qed
  have xlo: "2 ^ 23 \<le> ?x" if "e0 = ?k - 23"
  proof -
    have "(2::rat) powi ?k = 2 powi e0 * 2 ^ 23"
      using two_powi_add [of e0 23] that by simp
    with kb(1) show ?thesis by (simp add: pos_le_divide_eq mult.commute)
  qed
  have m_hi: "?m0 \<le> 2 ^ 24"
    using xhi by (intro rne_mono_int(2)) simp
  have m_lo: "0 \<le> ?m0"
    using xpos by (intro rne_mono_int(1)) simp
  have m_normal: "2 ^ 23 \<le> ?m0" if "e0 \<noteq> - 149"
  proof -
    from that have "e0 = ?k - 23" by (simp add: e0_def max_def split: if_splits)
    from xlo [OF this] show ?thesis by (intro rne_mono_int(1)) simp
  qed
  have m127: "?m0 \<noteq> 2 ^ 24" if "e0 = 104"
  proof -
    from that have "?k = 127" using k127 by (simp add: e0_def max_def split: if_splits)
    with kb(1) a(2) have "a = 2 ^ 127" by simp
    then have "?x = 2 ^ 23" using that two_powi_add [of 104 23] by simp
    then have "?m0 = rne (of_int (2 ^ 23))" by simp
    then show ?thesis by (simp only: rne_of_int) simp
  qed
  have unfold: "fround s a =
      (let e = (if ?m0 = 2 ^ 24 then e0 + 1 else e0);
           m = (if ?m0 = 2 ^ 24 then 2 ^ 23 else ?m0)
       in if 104 < e then Float s 255 0
          else if m < 2 ^ 23 then Float s 0 (of_int m)
          else Float s (of_int (e + 150)) (of_int (m - 2 ^ 23)))"
    using a(1) by (simp add: fround_def e0_def Let_def)
  consider (carry) "?m0 = 2 ^ 24" | (sub) "?m0 < 2 ^ 23" | (norm) "2 ^ 23 \<le> ?m0" "?m0 < 2 ^ 24"
    using m_hi by linarith
  then have "is_finite (fround s a) \<and> sign (fround s a) = s
      \<and> mag (fround s a) = of_int ?m0 * 2 powi e0"
  proof cases
    case carry
    then have e: "e0 \<noteq> 104" using m127 by blast
    then have e': "e0 + 1 \<le> 104" using e0b by simp
    have "fround s a = Float s (of_int (e0 + 1 + 150)) (of_int (2 ^ 23 - 2 ^ 23))"
      using carry e' by (simp add: unfold Let_def)
    moreover have "(of_int (2 ^ 24) :: rat) * 2 powi e0 = of_int (2 ^ 23) * 2 powi (e0 + 1)"
      using two_powi_add [of e0 1] by simp
    ultimately show ?thesis
      using mag_Float_normal [of "2 ^ 23" "e0 + 1" s] e0b e' carry by simp
  next
    case sub
    then have e: "e0 = - 149" using m_normal by fastforce
    have "fround s a = Float s 0 (of_int ?m0)"
      using sub e by (simp add: unfold Let_def)
    then show ?thesis
      using mag_Float_subnormal [OF m_lo sub, of s] e by (simp add: is_finite_def)
  next
    case norm
    have "fround s a = Float s (of_int (e0 + 150)) (of_int (?m0 - 2 ^ 23))"
      using norm e0b by (simp add: unfold Let_def)
    then show ?thesis
      using mag_Float_normal [OF norm e0b, of s] by simp
  qed
  then show "is_finite (fround s a)" and "sign (fround s a) = s"
    and "mag (fround s a) = of_int (rne (a / 2 powi e0)) * 2 powi e0"
    by simp_all
qed


lemma finite_not_nan: "is_finite a \<Longrightarrow> \<not> is_nan a"
  and finite_not_inf: "is_finite a \<Longrightarrow> \<not> is_inf a"
  by (simp_all add: is_finite_def is_nan_def is_inf_def)

lemma zero_finite: "is_zero a \<Longrightarrow> is_finite a"
  by (simp add: is_finite_def is_zero_def)

lemma one_facts:
  "\<not> is_nan 1" "\<not> is_inf 1" "\<not> is_zero 1" "is_finite 1" "sign 1 = False" "mag 1 = 1"
  by (simp_all add: one_float_def is_nan_def is_inf_def is_zero_def is_finite_def mag_def
      mant_def expn_def)

lemma zero_facts:
  "\<not> is_nan 0" "\<not> is_inf 0" "is_zero 0" "is_finite 0" "sign 0 = False" "mag 0 = 0"
  by (simp_all add: zero_float_def is_nan_def is_inf_def is_zero_def is_finite_def mag_def
      mant_def expn_def)

lemma fmul_one_right: "is_finite x \<Longrightarrow> x * 1 = x"
  by (simp add: times_float_def fmul_def finite_not_nan finite_not_inf one_facts fround_mag)

lemma fmul_one_left: "is_finite x \<Longrightarrow> 1 * x = x"
  by (simp add: times_float_def fmul_def finite_not_nan finite_not_inf one_facts fround_mag)

lemma fmul_zero_right: "is_finite x \<Longrightarrow> is_zero z \<Longrightarrow> is_zero (x * z)"
  using mag_eq_0_iff [of z]
  by (simp add: times_float_def fmul_def finite_not_nan finite_not_inf zero_finite fround_def
      is_zero_def)

lemma fmul_zero_left: "is_finite x \<Longrightarrow> is_zero z \<Longrightarrow> is_zero (z * x)"
  using mag_eq_0_iff [of z]
  by (simp add: times_float_def fmul_def finite_not_nan finite_not_inf zero_finite fround_def
      is_zero_def)

lemma valof_zero: "is_zero z \<Longrightarrow> valof z = 0"
  using mag_eq_0_iff [of z] by (simp add: valof_def)

lemma fadd_zero_zero: "is_zero a \<Longrightarrow> is_zero b \<Longrightarrow> is_zero (a + b)"
  by (simp add: plus_float_def fadd_def finite_not_nan finite_not_inf zero_finite valof_zero
      is_zero_def)

lemma valof_sign: "\<not> is_zero x \<Longrightarrow> valof x < 0 \<longleftrightarrow> sign x"
  using mag_eq_0_iff [of x] mag_nonneg [of x] by (auto simp add: valof_def)

lemma abs_valof: "\<bar>valof x\<bar> = mag x"
  using mag_nonneg [of x] by (simp add: valof_def)

lemma valof_eq_0_iff: "valof x = 0 \<longleftrightarrow> is_zero x"
  using mag_eq_0_iff [of x] by (simp add: valof_def)

lemma fadd_zero_right: "is_finite x \<Longrightarrow> \<not> is_zero x \<Longrightarrow> is_zero z \<Longrightarrow> x + z = x"
  by (simp add: plus_float_def fadd_def finite_not_nan finite_not_inf zero_finite valof_zero
      valof_eq_0_iff valof_sign abs_valof fround_mag)

lemma fadd_zero_left: "is_finite x \<Longrightarrow> \<not> is_zero x \<Longrightarrow> is_zero z \<Longrightarrow> z + x = x"
  by (simp add: plus_float_def fadd_def finite_not_nan finite_not_inf zero_finite valof_zero
      valof_eq_0_iff valof_sign abs_valof fround_mag)

lemma same_value_refl: "same_value x x"
  by (simp add: same_value_def)

lemma same_value_add_right:
  "same_value a x \<Longrightarrow> is_zero z \<Longrightarrow> is_finite x \<Longrightarrow> same_value (a + z) x"
  by (auto simp add: same_value_def fadd_zero_zero fadd_zero_right)

lemma same_value_add_left:
  "is_zero z \<Longrightarrow> same_value a x \<Longrightarrow> is_finite x \<Longrightarrow> same_value (z + a) x"
  by (auto simp add: same_value_def fadd_zero_zero fadd_zero_left)

lemma same_value_feq: "same_value a x \<Longrightarrow> is_finite x \<Longrightarrow> feq a x"
  by (auto simp add: same_value_def feq_def finite_not_nan zero_finite valof_zero
      split: if_splits)


lemma upt4: "[0..<4] = [0, 1, 2, 3]" by (simp add: upt_rec)

lemma Mat4_mul_entries:
  "Mat4_mul A B = (let a = Mat4_data A; b = Mat4_data B in Mat4
     [a ! 0 * b ! 0 + a ! 1 * b ! 4 + a ! 2 * b ! 8 + a ! 3 * b ! 12,
      a ! 0 * b ! 1 + a ! 1 * b ! 5 + a ! 2 * b ! 9 + a ! 3 * b ! 13,
      a ! 0 * b ! 2 + a ! 1 * b ! 6 + a ! 2 * b ! 10 + a ! 3 * b ! 14,
      a ! 0 * b ! 3 + a ! 1 * b ! 7 + a ! 2 * b ! 11 + a ! 3 * b ! 15,
      a ! 4 * b ! 0 + a ! 5 * b ! 4 + a ! 6 * b ! 8 + a ! 7 * b ! 12,
      a ! 4 * b ! 1 + a ! 5 * b ! 5 + a ! 6 * b ! 9 + a ! 7 * b ! 13,
      a ! 4 * b ! 2 + a ! 5 * b ! 6 + a ! 6 * b ! 10 + a ! 7 * b ! 14,
      a ! 4 * b ! 3 + a ! 5 * b ! 7 + a ! 6 * b ! 11 + a ! 7 * b ! 15,
      a ! 8 * b ! 0 + a ! 9 * b ! 4 + a ! 10 * b ! 8 + a ! 11 * b ! 12,
      a ! 8 * b ! 1 + a ! 9 * b ! 5 + a ! 10 * b ! 9 + a ! 11 * b ! 13,
      a ! 8 * b ! 2 + a ! 9 * b ! 6 + a ! 10 * b ! 10 + a ! 11 * b ! 14,
      a ! 8 * b ! 3 + a ! 9 * b ! 7 + a ! 10 * b ! 11 + a ! 11 * b ! 15,
      a ! 12 * b ! 0 + a ! 13 * b ! 4 + a ! 14 * b ! 8 + a ! 15 * b ! 12,
      a ! 12 * b ! 1 + a ! 13 * b ! 5 + a ! 14 * b ! 9 + a ! 15 * b ! 13,
      a ! 12 * b ! 2 + a ! 13 * b ! 6 + a ! 14 * b ! 10 + a ! 15 * b ! 14,
      a ! 12 * b ! 3 + a ! 13 * b ! 7 + a ! 14 * b ! 11 + a ! 15 * b ! 15])"
  by (simp add: Mat4_mul_def upt4 Mat4_set_def Mat4_default_def Let_def numeral_eq_Suc)

lemma identity_data:
  "Mat4_data identity = [1, 0, 0, 0, 0, 1, 0, 0, 0, 0, 1, 0, 0, 0, 0, 1]"
  by (simp add: identity_def Mat4_of_def)

lemma lt16_cases:
  "n < (16::nat) \<Longrightarrow> n \<in> {0, 1, 2, 3, 4, 5, 6, 7, 8, 9, 10, 11, 12, 13, 14, 15}"
  by simp arith

lemma row_left:
  assumes "is_finite a" "is_finite b" "is_finite c" "is_finite d"
  shows "feq (1 * a + 0 * b + 0 * c + 0 * d) a"
    and "feq (0 * a + 1 * b + 0 * c + 0 * d) b"
    and "feq (0 * a + 0 * b + 1 * c + 0 * d) c"
    and "feq (0 * a + 0 * b + 0 * c + 1 * d) d"
  using assms
  by (intro same_value_feq same_value_add_right same_value_add_left fadd_zero_zero
        fmul_zero_left zero_facts;
      simp add: fmul_one_left same_value_refl)+

lemma row_right:
  assumes "is_finite a" "is_finite b" "is_finite c" "is_finite d"
  shows "feq (a * 1 + b * 0 + c * 0 + d * 0) a"
    and "feq (a * 0 + b * 1 + c * 0 + d * 0) b"
    and "feq (a * 0 + b * 0 + c * 1 + d * 0) c"
    and "feq (a * 0 + b * 0 + c * 0 + d * 1) d"
  using assms
  by (intro same_value_feq same_value_add_right same_value_add_left fadd_zero_zero
        fmul_zero_right zero_facts;
      simp add: fmul_one_right same_value_refl)+



lemma lt4_cases: "n < (4::nat) \<Longrightarrow> n \<in> {0, 1, 2, 3}"
  by simp arith

section \<open>Small tables of float arithmetic\<close>

lemma float_zero_arith:
  "(0::float) * 0 = 0" "(0::float) + 0 = 0" "(0::float) - 0 = 0"
  "(0::float) * 1 = 0" "(1::float) * 0 = 0"
  by (simp_all add: times_float_def plus_float_def minus_float_def fsub_def fneg_def fmul_def
      fadd_def zero_float_def one_float_def is_nan_def is_inf_def is_zero_def valof_def
      mag_def mant_def expn_def fround_def)


lemma feq_refl: "\<not> is_nan a \<Longrightarrow> feq a a"
  by (simp add: feq_def)

lemma is_nan_fadd: "is_nan a \<or> is_nan b \<Longrightarrow> is_nan (a + b)"
  by (auto simp add: plus_float_def fadd_def default_nan_def is_nan_def)

section \<open>Floats in a binade, signed zeros, and the quarter turn\<close>

lemma mag_normal_bounds:
  assumes "expo a \<noteq> 0"
  shows "2 powi (uint (expo a) - 127) \<le> mag a" and "mag a < 2 powi (uint (expo a) - 126)"
proof -
  let ?e = "uint (expo a) - 150"
  have "(of_int ((2::int) ^ 23) :: rat) \<le> of_int (2 ^ 23 + uint (frac a))"
    "(of_int (2 ^ 23 + uint (frac a)) :: rat) < of_int ((2::int) ^ 24)"
    using uint_frac_bounds [of "frac a"] by (simp_all only: of_int_le_iff of_int_less_iff) simp_all
  then have mr: "(2::rat) ^ 23 \<le> of_int (2 ^ 23 + uint (frac a))"
    "(of_int (2 ^ 23 + uint (frac a)) :: rat) < 2 ^ 24"
    by simp_all
  have p1: "(2::rat) powi (uint (expo a) - 127) = 2 powi ?e * 2 ^ 23"
    using two_powi_add [of ?e 23] by simp
  have p2: "(2::rat) powi (uint (expo a) - 126) = 2 powi ?e * 2 ^ 24"
    using two_powi_add [of ?e 24] by simp
  have m: "mag a = of_int (2 ^ 23 + uint (frac a)) * 2 powi ?e"
    using assms by (simp add: mag_def mant_def expn_def)
  show "2 powi (uint (expo a) - 127) \<le> mag a"
    unfolding p1 m using mr(1) by (simp add: mult.commute)
  show "mag a < 2 powi (uint (expo a) - 126)"
    unfolding p2 m using mr(2) by (simp add: mult.commute)
qed

lemma mag_subnormal_bound:
  assumes "expo a = 0"
  shows "mag a < 2 powi (- 126)"
proof -
  have "(of_int (uint (frac a)) :: rat) < of_int ((2::int) ^ 23)"
    using uint_frac_bounds [of "frac a"] by (simp only: of_int_less_iff)
  then have mr: "(of_int (uint (frac a)) :: rat) < 2 ^ 23" by simp
  have p: "(2::rat) powi (- 126) = 2 powi (- 149) * 2 ^ 23"
    using two_powi_add [of "- 149" 23] by simp
  show ?thesis
    unfolding p using mr assms by (simp add: mag_def mant_def expn_def mult.commute)
qed

lemma binade_half_one:
  assumes "1 / 2 \<le> valof a" and "valof a < 1"
  shows "\<not> sign a" and "expo a = 126"
proof -
  show s: "\<not> sign a"
  proof
    assume "sign a"
    then have "valof a \<le> 0" using mag_nonneg [of a] by (simp add: valof_def)
    with assms(1) show False by simp
  qed
  then have v: "valof a = mag a" by (simp add: valof_def)
  have e0: "expo a \<noteq> 0"
  proof
    assume "expo a = 0"
    from mag_subnormal_bound [OF this] have "mag a < 1 / 2"
      by (simp add: power_int_minus_divide) 
    with assms(1) v show False by simp
  qed
  note b = mag_normal_bounds [OF e0]
  have "\<not> 127 \<le> uint (expo a)"
  proof
    assume "127 \<le> uint (expo a)"
    then have "(2::rat) powi 0 \<le> 2 powi (uint (expo a) - 127)" by (intro two_powi_mono) simp
    with b(1) assms(2) v show False by simp
  qed
  moreover have "\<not> uint (expo a) \<le> 125"
  proof
    assume "uint (expo a) \<le> 125"
    then have "(2::rat) powi (uint (expo a) - 126) \<le> 2 powi (- 1)" by (intro two_powi_mono) simp
    with b(2) assms(1) v show False by (simp add: power_int_minus_divide)
  qed
  ultimately have "uint (expo a) = uint (126 :: 8 word)" by simp
  then show "expo a = 126" by (simp only: word_uint_eq_iff)
qed

lemma float_between:
  assumes lo: "of_int k / 2 ^ 24 < valof a" and hi: "valof a < of_int (k + 3) / 2 ^ 24"
    and k: "2 ^ 23 \<le> k" "k + 3 < 2 ^ 24"
  shows "a = Float False 126 (of_int (k + 1 - 2 ^ 23)) \<or> a = Float False 126 (of_int (k + 2 - 2 ^ 23))"
proof -
  have "(of_int ((2::int) ^ 23) :: rat) \<le> of_int k" "(of_int (k + 3) :: rat) < of_int ((2::int) ^ 24)"
    using k by (simp_all only: of_int_le_iff of_int_less_iff)
  then have kr: "(2::rat) ^ 23 \<le> of_int k" "(of_int (k + 3) :: rat) < 2 ^ 24" by simp_all
  have "1 / 2 \<le> (of_int k :: rat) / 2 ^ 24" using kr(1) by simp
  with lo have h1: "1 / 2 \<le> valof a" by simp
  have "(of_int (k + 3) :: rat) / 2 ^ 24 < 1" using kr(2) by simp
  with hi have h2: "valof a < 1" by simp
  note se = binade_half_one [OF h1 h2]
  have v: "valof a = of_int (2 ^ 23 + uint (frac a)) / 2 ^ 24"
    using se by (simp add: valof_def mag_def mant_def expn_def power_int_minus_divide)
  from lo hi have "(of_int k :: rat) < of_int (2 ^ 23 + uint (frac a))"
    "(of_int (2 ^ 23 + uint (frac a)) :: rat) < of_int (k + 3)"
    unfolding v by (simp_all add: divide_less_cancel)
  then have "k < 2 ^ 23 + uint (frac a)" "2 ^ 23 + uint (frac a) < k + 3"
    by (simp_all only: of_int_less_iff)
  then have "uint (frac a) = k + 1 - 2 ^ 23 \<or> uint (frac a) = k + 2 - 2 ^ 23" by auto
  then have "frac a = of_int (k + 1 - 2 ^ 23) \<or> frac a = of_int (k + 2 - 2 ^ 23)"
    by (metis word_of_int_uint)
  with se show ?thesis by (cases a) auto
qed

lemma is_zero_simps:
  "is_zero z \<Longrightarrow> is_zero (- z)"
  "is_zero a \<Longrightarrow> is_zero b \<Longrightarrow> is_zero (a - b)"
  by (simp_all add: uminus_float_def minus_float_def fsub_def fneg_def fadd_def is_zero_def
      is_nan_def is_inf_def valof_def mag_def mant_def expn_def)

lemma is_finite_simps:
  "is_finite x \<Longrightarrow> is_finite (- x)"
  "\<not> is_zero x \<Longrightarrow> \<not> is_zero (- x)"
  by (simp_all add: uminus_float_def fneg_def is_finite_def is_zero_def)

lemma fneg_fneg: "- (- x) = (x::float)"
  by (simp add: uminus_float_def fneg_def)

lemma fsub_zero_right: "is_finite x \<Longrightarrow> \<not> is_zero x \<Longrightarrow> is_zero z \<Longrightarrow> x - z = x"
  using fadd_zero_right [of x "- z"]
  by (simp add: minus_float_def fsub_def plus_float_def uminus_float_def [symmetric] is_zero_simps)

lemma fsub_zero_left: "is_finite x \<Longrightarrow> \<not> is_zero x \<Longrightarrow> is_zero z \<Longrightarrow> z - x = - x"
  using fadd_zero_left [of "- x" z]
  by (simp add: minus_float_def fsub_def plus_float_def uminus_float_def [symmetric] is_finite_simps)

lemma fneg_facts:
  "mag (- x) = mag x" "sign (- x) = (\<not> sign x)" "is_nan (- x) = is_nan x"
  "is_inf (- x) = is_inf x" "is_zero (- x) = is_zero x" "is_finite (- x) = is_finite x"
  by (simp_all add: uminus_float_def fneg_def mag_def mant_def expn_def is_nan_def is_inf_def
      is_zero_def is_finite_def)

lemma fmul_neg_one_neg: "is_finite x \<Longrightarrow> (- 1) * (- x) = x"
  by (simp add: times_float_def fmul_def fneg_facts one_facts finite_not_nan finite_not_inf
      fround_mag)

lemmas zero_arith =
  zero_facts one_facts is_zero_simps is_finite_simps fadd_zero_zero fmul_zero_left
  fmul_zero_right fmul_one_left fmul_one_right fadd_zero_left fadd_zero_right
  fsub_zero_left fsub_zero_right fmul_neg_one_neg zero_finite

lemma rotate_step1:
  assumes "is_finite S" "\<not> is_zero S" "is_finite C" "\<not> is_zero C" "is_zero z1" "is_zero z2"
  shows "\<exists>K R. is_zero K \<and> is_zero R
           \<and> Quat_mul (Quat 1 0 0 0) (Quat_conjugate (Quat z1 z2 S C)) = Quat C S K R"
  using assms by (simp add: Quat_mul_def Quat_conjugate_def Let_def zero_arith)

lemma rotate_step2:
  assumes "is_finite S" "\<not> is_zero S" "is_finite C" "\<not> is_zero C" "is_zero z1" "is_zero z2"
    and "is_zero K" "is_zero R"
    and "is_finite (S * S)" "\<not> is_zero (S * S)" "is_finite (S * C)" "\<not> is_zero (S * C)"
  shows "Quat_i (Quat_mul (Quat z1 z2 S C) (Quat C S K R)) = - (S * S) + C * C"
    and "Quat_j (Quat_mul (Quat z1 z2 S C) (Quat C S K R)) = S * C + C * S"
    and "is_zero (Quat_k (Quat_mul (Quat z1 z2 S C) (Quat C S K R)))"
  using assms by (simp_all add: Quat_mul_def Let_def zero_arith)

lemma rotate_struct:
  assumes S: "is_finite S" "\<not> is_zero S" and C: "is_finite C" "\<not> is_zero C"
    and SS: "is_finite (S * S)" "\<not> is_zero (S * S)"
    and SC: "is_finite (S * C)" "\<not> is_zero (S * C)"
  shows "Vec3_x (Quat_mul_Vec3 (Quat (0 * S) (0 * S) (1 * S) C) (Vec3 1 0 0)) = - (S * S) + C * C"
    and "Vec3_y (Quat_mul_Vec3 (Quat (0 * S) (0 * S) (1 * S) C) (Vec3 1 0 0)) = S * C + C * S"
    and "is_zero (Vec3_z (Quat_mul_Vec3 (Quat (0 * S) (0 * S) (1 * S) C) (Vec3 1 0 0)))"
proof -
  have z: "is_zero (0 * S)" and o: "1 * S = S"
    using S by (simp_all add: fmul_zero_left fmul_one_left zero_facts)
  from rotate_step1 [OF S C z z] obtain K R where KR: "is_zero K" "is_zero R"
    and q1: "Quat_mul (Quat 1 0 0 0) (Quat_conjugate (Quat (0 * S) (0 * S) S C)) = Quat C S K R"
    by blast
  note r = rotate_step2 [OF S C z z KR SS SC]
  show "Vec3_x (Quat_mul_Vec3 (Quat (0 * S) (0 * S) (1 * S) C) (Vec3 1 0 0)) = - (S * S) + C * C"
    and "Vec3_y (Quat_mul_Vec3 (Quat (0 * S) (0 * S) (1 * S) C) (Vec3 1 0 0)) = S * C + C * S"
    and "is_zero (Vec3_z (Quat_mul_Vec3 (Quat (0 * S) (0 * S) (1 * S) C) (Vec3 1 0 0)))"
    using r by (simp_all add: Quat_mul_Vec3_def Quat_mul_Vec4_def Let_def o q1)
qed

lemma half_angle: "pi_half_f / float_of_rat 2 = Float False 126 4788187"
  unfolding pi_half_f_def by code_simp

lemma valof_half_angle: "valof (Float False 126 4788187) = 13176795 / 16777216"
  by (simp add: valof_def mag_def mant_def expn_def power_int_minus_divide)

lemma fmul_commute: "a * b = b * (a::float)"
  by (cases "sign a"; cases "sign b"; auto simp add: times_float_def fmul_def mult.commute)

lemma candidate_products:
  "half_sqrt2_dn * half_sqrt2_dn = Float False 125 8388605"
  "half_sqrt2 * half_sqrt2 = Float False 125 8388607"
  "half_sqrt2_up * half_sqrt2_up = Float False 126 1"
  "half_sqrt2 * half_sqrt2_dn = Float False 125 8388606"
  "half_sqrt2_up * half_sqrt2_dn = Float False 125 8388607"
  "half_sqrt2_up * half_sqrt2 = Float False 126 0"
  unfolding half_sqrt2_dn_def half_sqrt2_def half_sqrt2_up_def by code_simp+

lemma candidate_sums:
  "- Float False 125 8388607 + Float False 125 8388605 = Float True 103 0"
  "- Float False 125 8388607 + Float False 125 8388607 = Float False 0 0"
  "- Float False 126 1 + Float False 125 8388605 = Float True 104 2097152"
  "- Float False 126 1 + Float False 125 8388607 = Float True 103 4194304"
  "Float False 125 8388606 + Float False 125 8388606 = Float False 126 8388606"
  "Float False 125 8388607 + Float False 125 8388607 = Float False 126 8388607"
  "Float False 126 0 + Float False 126 0 = Float False 127 0"
  by code_simp+

lemma candidate_values:
  "valof (Float True 103 0) = - 1 / 2 ^ 24"
  "valof (Float False 0 0) = 0"
  "valof (Float True 104 2097152) = - 5 / 2 ^ 25"
  "valof (Float True 103 4194304) = - 3 / 2 ^ 25"
  "valof (Float False 126 8388606) = 1 - 2 / 2 ^ 24"
  "valof (Float False 126 8388607) = 1 - 1 / 2 ^ 24"
  "valof (Float False 127 0) = 1"
  by (simp_all add: valof_def mag_def mant_def expn_def power_int_minus_divide)


lemma sin_coeff_values:
  "sin_coeff 0 = 0" "sin_coeff 1 = 1" "sin_coeff 2 = 0" "sin_coeff 3 = - 1 / 6"
  "sin_coeff 4 = 0" "sin_coeff 5 = 1 / 120" "sin_coeff 6 = 0" "sin_coeff 7 = - 1 / 5040"
  "sin_coeff 8 = 0" "sin_coeff 9 = 1 / 362880" "sin_coeff 10 = 0"
  "sin_coeff 11 = - 1 / 39916800" "sin_coeff (Suc 0) = 1"
  by (simp_all add: sin_coeff_def fact_numeral)

lemma sin_taylor_bound: "\<bar>sin x - sin_taylor x\<bar> \<le> \<bar>x\<bar> ^ 12 / 479001600"
proof -
  have "{..<12::nat} = {0, 1, 2, 3, 4, 5, 6, 7, 8, 9, 10, 11}"
    by (rule set_eqI) (simp, arith)
  then have s: "(\<Sum>m<12. sin_coeff m * x ^ m) = sin_taylor x"
    by (simp add: sin_coeff_values sin_taylor_def)
  have f: "fact 12 = (479001600::real)"
    by (simp add: fact_numeral)
  have "\<bar>sin x - (\<Sum>m<12. sin_coeff m * x ^ m)\<bar> \<le> inverse (fact 12) * \<bar>x\<bar> ^ 12"
    by (rule Maclaurin_sin_bound)
  then show ?thesis
    unfolding s f by (simp only: divide_inverse mult.commute)
qed

lemma sin_half_angle_bounds:
  "707106796 / 1000000000 < sin half_angle_r" "sin half_angle_r < 707106797 / 1000000000"
proof -
  have e: "\<bar>half_angle_r\<bar> ^ 12 / 479001600 \<le> 2 / 10000000000"
    by (simp add: half_angle_r_def power_divide)
  have lo: "707106796 / 1000000000 + 2 / 10000000000 < sin_taylor half_angle_r"
    by (simp add: half_angle_r_def sin_taylor_def power_divide)
  have hi: "sin_taylor half_angle_r < 707106797 / 1000000000 - 2 / 10000000000"
    by (simp add: half_angle_r_def sin_taylor_def power_divide)
  from sin_taylor_bound [of half_angle_r] e lo hi
  show "707106796 / 1000000000 < sin half_angle_r" "sin half_angle_r < 707106797 / 1000000000"
    by linarith+
qed

lemma half_angle_range: "0 < half_angle_r" "half_angle_r < pi / 2"
  using pi_ge_two by (simp_all add: half_angle_r_def)

lemma cos_half_angle_bounds:
  "707106765 / 1000000000 < cos half_angle_r" "cos half_angle_r < 11863283 / 16777216"
proof -
  have c0: "0 < cos half_angle_r"
    using half_angle_range by (intro cos_gt_zero) simp_all
  have s0: "0 < sin half_angle_r"
    using sin_half_angle_bounds(1) by simp
  have sq: "(cos half_angle_r)\<^sup>2 = 1 - (sin half_angle_r)\<^sup>2"
    by (simp add: cos_squared_eq)
  have s2lo: "(707106796 / 1000000000)\<^sup>2 < (sin half_angle_r)\<^sup>2"
    using sin_half_angle_bounds(1) by (intro power_strict_mono) simp_all
  have s2hi: "(sin half_angle_r)\<^sup>2 < (707106797 / 1000000000)\<^sup>2"
    using sin_half_angle_bounds(2) s0 by (intro power_strict_mono) simp_all
  show "707106765 / 1000000000 < cos half_angle_r"
  proof (rule ccontr)
    assume "\<not> 707106765 / 1000000000 < cos half_angle_r"
    then have "cos half_angle_r \<le> 707106765 / 1000000000" by simp
    then have "(cos half_angle_r)\<^sup>2 \<le> (707106765 / 1000000000)\<^sup>2"
      using c0 by (intro power_mono) simp_all
    with sq s2hi show False by (simp add: power_divide)
  qed
  show "cos half_angle_r < 11863283 / 16777216"
  proof (rule ccontr)
    assume "\<not> cos half_angle_r < 11863283 / 16777216"
    then have "11863283 / 16777216 \<le> cos half_angle_r" by simp
    then have "(11863283 / 16777216)\<^sup>2 \<le> (cos half_angle_r)\<^sup>2"
      by (intro power_mono) simp_all
    with sq s2lo show False by (simp add: power_divide)
  qed
qed

lemma real_candidates:
  "(of_rat (valof half_sqrt2_dn) :: real) = 11863282 / 16777216"
  "(of_rat (valof half_sqrt2) :: real) = 11863283 / 16777216"
  "(of_rat (valof half_sqrt2_up) :: real) = 11863284 / 16777216"
  by (simp_all add: half_sqrt2_dn_def half_sqrt2_def half_sqrt2_up_def valof_def mag_def
      mant_def expn_def power_int_minus_divide of_rat_divide)

lemma sin_candidates:
  assumes "\<bar>of_rat (valof S) - sin half_angle_r\<bar> \<le> 1 / 2 ^ 24"
  shows "S = half_sqrt2 \<or> S = half_sqrt2_up"
proof -
  have p: "(1::real) / 2 ^ 24 = 1 / 16777216" by simp
  from assms [unfolded p] sin_half_angle_bounds
  have "(11863282 / 16777216 :: real) < of_rat (valof S)"
    and "(of_rat (valof S) :: real) < 11863285 / 16777216"
    by linarith+
  moreover have "(of_rat (of_int 11863282 / 2 ^ 24) :: real) = 11863282 / 16777216"
    and "(of_rat (of_int (11863282 + 3) / 2 ^ 24) :: real) = 11863285 / 16777216"
    by (simp_all add: of_rat_divide of_rat_power)
  ultimately have "(of_rat (of_int 11863282 / 2 ^ 24) :: real) < of_rat (valof S)"
    and "(of_rat (valof S) :: real) < of_rat (of_int (11863282 + 3) / 2 ^ 24)"
    by simp_all
  then have "of_int 11863282 / 2 ^ 24 < valof S" "valof S < of_int (11863282 + 3) / 2 ^ 24"
    by (simp_all only: of_rat_less)
  from float_between [OF this] show ?thesis
    by (simp add: half_sqrt2_def half_sqrt2_up_def)
qed

lemma cos_candidates:
  assumes "\<bar>of_rat (valof C) - cos half_angle_r\<bar> \<le> 1 / 2 ^ 24"
  shows "C = half_sqrt2_dn \<or> C = half_sqrt2"
proof -
  have p: "(1::real) / 2 ^ 24 = 1 / 16777216" by simp
  from assms [unfolded p] cos_half_angle_bounds
  have "(11863281 / 16777216 :: real) < of_rat (valof C)"
    and "(of_rat (valof C) :: real) < 11863284 / 16777216"
    by linarith+
  moreover have "(of_rat (of_int 11863281 / 2 ^ 24) :: real) = 11863281 / 16777216"
    and "(of_rat (of_int (11863281 + 3) / 2 ^ 24) :: real) = 11863284 / 16777216"
    by (simp_all add: of_rat_divide of_rat_power)
  ultimately have "(of_rat (of_int 11863281 / 2 ^ 24) :: real) < of_rat (valof C)"
    and "(of_rat (valof C) :: real) < of_rat (of_int (11863281 + 3) / 2 ^ 24)"
    by simp_all
  then have "of_int 11863281 / 2 ^ 24 < valof C" "valof C < of_int (11863281 + 3) / 2 ^ 24"
    by (simp_all only: of_rat_less)
  from float_between [OF this] show ?thesis
    by (simp add: half_sqrt2_dn_def half_sqrt2_def)
qed

lemma sin_nearest:
  assumes "\<bar>of_rat (valof S) - sin half_angle_r\<bar> \<le> 1 / 2 ^ 25"
  shows "S = half_sqrt2"
proof -
  have p: "(1::real) / 2 ^ 25 = 1 / 33554432" by simp
  from assms have "\<bar>of_rat (valof S) - sin half_angle_r\<bar> \<le> 1 / 2 ^ 24" by simp
  from sin_candidates [OF this] have "S = half_sqrt2 \<or> S = half_sqrt2_up" .
  moreover have "S \<noteq> half_sqrt2_up"
  proof
    assume "S = half_sqrt2_up"
    with assms [unfolded p] sin_half_angle_bounds(2) show False
      by (simp add: real_candidates)
  qed
  ultimately show ?thesis by simp
qed

lemma cos_nearest:
  assumes "\<bar>of_rat (valof C) - cos half_angle_r\<bar> \<le> 1 / 2 ^ 25"
  shows "C = half_sqrt2"
proof -
  have p: "(1::real) / 2 ^ 25 = 1 / 33554432" by simp
  from assms have "\<bar>of_rat (valof C) - cos half_angle_r\<bar> \<le> 1 / 2 ^ 24" by simp
  from cos_candidates [OF this] have "C = half_sqrt2_dn \<or> C = half_sqrt2" .
  moreover have "C \<noteq> half_sqrt2_dn"
  proof
    assume "C = half_sqrt2_dn"
    with assms [unfolded p] cos_half_angle_bounds(1) show False
      by (simp add: real_candidates)
  qed
  ultimately show ?thesis by simp
qed

lemma real_half_angle: "(of_rat (valof (pi_half_f / float_of_rat 2)) :: real) = half_angle_r"
  by (simp add: half_angle valof_half_angle half_angle_r_def of_rat_divide)

lemma candidate_facts:
  "is_finite half_sqrt2_dn" "is_finite half_sqrt2" "is_finite half_sqrt2_up" "\<not> is_zero half_sqrt2_dn" "\<not> is_zero half_sqrt2" "\<not> is_zero half_sqrt2_up"
  "is_finite (Float False 125 8388605)" "is_finite (Float False 125 8388606)"
  "is_finite (Float False 125 8388607)" "is_finite (Float False 126 0)"
  "is_finite (Float False 126 1)"
  "\<not> is_zero (Float False 125 8388605)" "\<not> is_zero (Float False 125 8388606)"
  "\<not> is_zero (Float False 125 8388607)" "\<not> is_zero (Float False 126 0)"
  "\<not> is_zero (Float False 126 1)"
  "is_finite (Float True 103 0)" "is_finite (Float False 0 0)"
  "is_finite (Float True 104 2097152)" "is_finite (Float True 103 4194304)"
  "is_finite (Float False 126 8388606)" "is_finite (Float False 126 8388607)"
  "is_finite (Float False 127 0)"
  by (simp_all add: half_sqrt2_dn_def half_sqrt2_def half_sqrt2_up_def is_finite_def is_zero_def)

lemma rotate_b_a:
  "Vec3_x (Quat_mul_Vec3 (Quat (0 * half_sqrt2) (0 * half_sqrt2) (1 * half_sqrt2) half_sqrt2_dn) (Vec3 1 0 0)) = Float True 103 0"
  "Vec3_y (Quat_mul_Vec3 (Quat (0 * half_sqrt2) (0 * half_sqrt2) (1 * half_sqrt2) half_sqrt2_dn) (Vec3 1 0 0))
     = Float False 126 8388606"
  "is_zero (Vec3_z (Quat_mul_Vec3 (Quat (0 * half_sqrt2) (0 * half_sqrt2) (1 * half_sqrt2) half_sqrt2_dn) (Vec3 1 0 0)))"
proof -
  have p: "is_finite (half_sqrt2 * half_sqrt2)" "\<not> is_zero (half_sqrt2 * half_sqrt2)" "is_finite (half_sqrt2 * half_sqrt2_dn)" "\<not> is_zero (half_sqrt2 * half_sqrt2_dn)"
    by (simp_all only: candidate_products candidate_facts not_False_eq_True)
  note r = rotate_struct [OF candidate_facts(2) candidate_facts(5) candidate_facts(1)
      candidate_facts(4) p]
  show "Vec3_x (Quat_mul_Vec3 (Quat (0 * half_sqrt2) (0 * half_sqrt2) (1 * half_sqrt2) half_sqrt2_dn) (Vec3 1 0 0)) = Float True 103 0"
    by (simp only: r candidate_products candidate_sums)
  show "Vec3_y (Quat_mul_Vec3 (Quat (0 * half_sqrt2) (0 * half_sqrt2) (1 * half_sqrt2) half_sqrt2_dn) (Vec3 1 0 0))
     = Float False 126 8388606"
    by (simp only: r fmul_commute [of half_sqrt2_dn half_sqrt2] candidate_products candidate_sums)
  show "is_zero (Vec3_z (Quat_mul_Vec3 (Quat (0 * half_sqrt2) (0 * half_sqrt2) (1 * half_sqrt2) half_sqrt2_dn) (Vec3 1 0 0)))"
    by (rule r)
qed

lemma rotate_b_b:
  "Vec3_x (Quat_mul_Vec3 (Quat (0 * half_sqrt2) (0 * half_sqrt2) (1 * half_sqrt2) half_sqrt2) (Vec3 1 0 0)) = Float False 0 0"
  "Vec3_y (Quat_mul_Vec3 (Quat (0 * half_sqrt2) (0 * half_sqrt2) (1 * half_sqrt2) half_sqrt2) (Vec3 1 0 0))
     = Float False 126 8388607"
  "is_zero (Vec3_z (Quat_mul_Vec3 (Quat (0 * half_sqrt2) (0 * half_sqrt2) (1 * half_sqrt2) half_sqrt2) (Vec3 1 0 0)))"
proof -
  have p: "is_finite (half_sqrt2 * half_sqrt2)" "\<not> is_zero (half_sqrt2 * half_sqrt2)" "is_finite (half_sqrt2 * half_sqrt2)" "\<not> is_zero (half_sqrt2 * half_sqrt2)"
    by (simp_all only: candidate_products candidate_facts not_False_eq_True)
  note r = rotate_struct [OF candidate_facts(2) candidate_facts(5) candidate_facts(2)
      candidate_facts(5) p]
  show "Vec3_x (Quat_mul_Vec3 (Quat (0 * half_sqrt2) (0 * half_sqrt2) (1 * half_sqrt2) half_sqrt2) (Vec3 1 0 0)) = Float False 0 0"
    by (simp only: r candidate_products candidate_sums)
  show "Vec3_y (Quat_mul_Vec3 (Quat (0 * half_sqrt2) (0 * half_sqrt2) (1 * half_sqrt2) half_sqrt2) (Vec3 1 0 0))
     = Float False 126 8388607"
    by (simp only: r candidate_products candidate_sums)
  show "is_zero (Vec3_z (Quat_mul_Vec3 (Quat (0 * half_sqrt2) (0 * half_sqrt2) (1 * half_sqrt2) half_sqrt2) (Vec3 1 0 0)))"
    by (rule r)
qed

lemma rotate_c_a:
  "Vec3_x (Quat_mul_Vec3 (Quat (0 * half_sqrt2_up) (0 * half_sqrt2_up) (1 * half_sqrt2_up) half_sqrt2_dn) (Vec3 1 0 0))
     = Float True 104 2097152"
  "Vec3_y (Quat_mul_Vec3 (Quat (0 * half_sqrt2_up) (0 * half_sqrt2_up) (1 * half_sqrt2_up) half_sqrt2_dn) (Vec3 1 0 0))
     = Float False 126 8388607"
  "is_zero (Vec3_z (Quat_mul_Vec3 (Quat (0 * half_sqrt2_up) (0 * half_sqrt2_up) (1 * half_sqrt2_up) half_sqrt2_dn) (Vec3 1 0 0)))"
proof -
  have p: "is_finite (half_sqrt2_up * half_sqrt2_up)" "\<not> is_zero (half_sqrt2_up * half_sqrt2_up)" "is_finite (half_sqrt2_up * half_sqrt2_dn)" "\<not> is_zero (half_sqrt2_up * half_sqrt2_dn)"
    by (simp_all only: candidate_products candidate_facts not_False_eq_True)
  note r = rotate_struct [OF candidate_facts(3) candidate_facts(6) candidate_facts(1)
      candidate_facts(4) p]
  show "Vec3_x (Quat_mul_Vec3 (Quat (0 * half_sqrt2_up) (0 * half_sqrt2_up) (1 * half_sqrt2_up) half_sqrt2_dn) (Vec3 1 0 0))
     = Float True 104 2097152"
    by (simp only: r candidate_products candidate_sums)
  show "Vec3_y (Quat_mul_Vec3 (Quat (0 * half_sqrt2_up) (0 * half_sqrt2_up) (1 * half_sqrt2_up) half_sqrt2_dn) (Vec3 1 0 0))
     = Float False 126 8388607"
    by (simp only: r fmul_commute [of half_sqrt2_dn half_sqrt2_up] candidate_products candidate_sums)
  show "is_zero (Vec3_z (Quat_mul_Vec3 (Quat (0 * half_sqrt2_up) (0 * half_sqrt2_up) (1 * half_sqrt2_up) half_sqrt2_dn) (Vec3 1 0 0)))"
    by (rule r)
qed

lemma rotate_c_b:
  "Vec3_x (Quat_mul_Vec3 (Quat (0 * half_sqrt2_up) (0 * half_sqrt2_up) (1 * half_sqrt2_up) half_sqrt2) (Vec3 1 0 0))
     = Float True 103 4194304"
  "Vec3_y (Quat_mul_Vec3 (Quat (0 * half_sqrt2_up) (0 * half_sqrt2_up) (1 * half_sqrt2_up) half_sqrt2) (Vec3 1 0 0)) = Float False 127 0"
  "is_zero (Vec3_z (Quat_mul_Vec3 (Quat (0 * half_sqrt2_up) (0 * half_sqrt2_up) (1 * half_sqrt2_up) half_sqrt2) (Vec3 1 0 0)))"
proof -
  have p: "is_finite (half_sqrt2_up * half_sqrt2_up)" "\<not> is_zero (half_sqrt2_up * half_sqrt2_up)" "is_finite (half_sqrt2_up * half_sqrt2)" "\<not> is_zero (half_sqrt2_up * half_sqrt2)"
    by (simp_all only: candidate_products candidate_facts not_False_eq_True)
  note r = rotate_struct [OF candidate_facts(3) candidate_facts(6) candidate_facts(2)
      candidate_facts(5) p]
  show "Vec3_x (Quat_mul_Vec3 (Quat (0 * half_sqrt2_up) (0 * half_sqrt2_up) (1 * half_sqrt2_up) half_sqrt2) (Vec3 1 0 0))
     = Float True 103 4194304"
    by (simp only: r candidate_products candidate_sums)
  show "Vec3_y (Quat_mul_Vec3 (Quat (0 * half_sqrt2_up) (0 * half_sqrt2_up) (1 * half_sqrt2_up) half_sqrt2) (Vec3 1 0 0)) = Float False 127 0"
    by (simp only: r fmul_commute [of half_sqrt2 half_sqrt2_up] candidate_products candidate_sums)
  show "is_zero (Vec3_z (Quat_mul_Vec3 (Quat (0 * half_sqrt2_up) (0 * half_sqrt2_up) (1 * half_sqrt2_up) half_sqrt2) (Vec3 1 0 0)))"
    by (rule r)
qed

lemma rotate_candidates:
  assumes "S = half_sqrt2 \<or> S = half_sqrt2_up" and "C = half_sqrt2_dn \<or> C = half_sqrt2"
  shows "\<bar>valof (Vec3_x (Quat_mul_Vec3 (Quat (0 * S) (0 * S) (1 * S) C) (Vec3 1 0 0)))\<bar> \<le> 3 / 2 ^ 24
    \<and> \<bar>valof (Vec3_y (Quat_mul_Vec3 (Quat (0 * S) (0 * S) (1 * S) C) (Vec3 1 0 0))) - 1\<bar> \<le> 2 / 2 ^ 24
    \<and> is_zero (Vec3_z (Quat_mul_Vec3 (Quat (0 * S) (0 * S) (1 * S) C) (Vec3 1 0 0)))
    \<and> is_finite (Vec3_x (Quat_mul_Vec3 (Quat (0 * S) (0 * S) (1 * S) C) (Vec3 1 0 0)))
    \<and> is_finite (Vec3_y (Quat_mul_Vec3 (Quat (0 * S) (0 * S) (1 * S) C) (Vec3 1 0 0)))"
  using assms
proof (elim disjE)
  assume "S = half_sqrt2" "C = half_sqrt2_dn"
  then show ?thesis
    by (simp add: rotate_b_a candidate_values candidate_facts)
next
  assume "S = half_sqrt2" "C = half_sqrt2"
  then show ?thesis
    by (simp add: rotate_b_b candidate_values candidate_facts)
next
  assume "S = half_sqrt2_up" "C = half_sqrt2_dn"
  then show ?thesis
    by (simp add: rotate_c_a candidate_values candidate_facts)
next
  assume "S = half_sqrt2_up" "C = half_sqrt2"
  then show ?thesis
    by (simp add: rotate_c_b candidate_values candidate_facts)
qed


lemma pi_half_f_nearest: "\<bar>of_rat (valof pi_half_f) - pi / 2\<bar> < 1 / 2 ^ 24"
proof -
  let ?h = "half_angle_r" and ?k = "26353589 / 33554432 :: real"
  have v: "(of_rat (valof pi_half_f) :: real) = 2 * ?h"
    by (simp add: pi_half_f_def valof_def mag_def mant_def expn_def power_int_minus_divide
        of_rat_divide half_angle_r_def)
  have "(707106796 / 1000000000)\<^sup>2 < (sin ?h)\<^sup>2"
    using sin_half_angle_bounds(1) by (intro power_strict_mono) simp_all
  then have c1: "cos (2 * ?h) < 0"
    by (simp add: cos_double_sin power_divide)
  have e: "\<bar>?k\<bar> ^ 12 / 479001600 \<le> 2 / 10000000000"
    by (simp add: power_divide)
  have hi: "sin_taylor ?k < 70710678 / 100000000 - 2 / 10000000000"
    by (simp add: sin_taylor_def power_divide)
  from sin_taylor_bound [of ?k] e hi have sk: "sin ?k < 70710678 / 100000000"
    by linarith
  have "0 < sin ?k"
    using pi_ge_two by (intro sin_gt_zero) simp_all
  with sk have "(sin ?k)\<^sup>2 < (70710678 / 100000000)\<^sup>2"
    by (intro power_strict_mono) simp_all
  moreover have "(70710678 / 100000000 :: real)\<^sup>2 < 1 / 2"
    by (simp add: power_divide)
  moreover have "cos (2 * ?k) = 1 - 2 * (sin ?k)\<^sup>2"
    by (rule cos_double_sin)
  ultimately have c2: "0 < cos (2 * ?k)"
    by linarith
  have up: "pi / 2 < 2 * ?h"
  proof (rule ccontr)
    assume "\<not> pi / 2 < 2 * ?h"
    then have "0 \<le> cos (2 * ?h)" by (intro cos_ge_zero) (simp_all add: half_angle_r_def)
    with c1 show False by simp
  qed
  have lo: "2 * ?k < pi / 2"
  proof (rule ccontr)
    assume "\<not> 2 * ?k < pi / 2"
    then have "cos (2 * ?k) \<le> cos (pi / 2)"
      using pi_ge_two by (intro cos_monotone_0_pi_le) simp_all
    with c2 show False by simp
  qed
  have "2 * ?k = 2 * ?h - 1 / 2 ^ 24" by (simp add: half_angle_r_def)
  with up lo show ?thesis unfolding v by (simp add: abs_less_iff)
qed

lemma libm_sample_accurate:
  "\<bar>of_rat (valof (libm_sin libm_sample (pi_half_f / float_of_rat 2)))
             - sin (of_rat (valof (pi_half_f / float_of_rat 2)) :: real)\<bar> \<le> 1 / 2 ^ 25"
  "\<bar>of_rat (valof (libm_cos libm_sample (pi_half_f / float_of_rat 2)))
             - cos (of_rat (valof (pi_half_f / float_of_rat 2)) :: real)\<bar> \<le> 1 / 2 ^ 25"
proof -
  have p: "(1::real) / 2 ^ 25 = 1 / 33554432" by simp
  show "\<bar>of_rat (valof (libm_sin libm_sample (pi_half_f / float_of_rat 2)))
             - sin (of_rat (valof (pi_half_f / float_of_rat 2)) :: real)\<bar> \<le> 1 / 2 ^ 25"
    unfolding real_half_angle p using sin_half_angle_bounds
    by (simp add: libm_sample_def real_candidates)
  show "\<bar>of_rat (valof (libm_cos libm_sample (pi_half_f / float_of_rat 2)))
             - cos (of_rat (valof (pi_half_f / float_of_rat 2)) :: real)\<bar> \<le> 1 / 2 ^ 25"
    unfolding real_half_angle p using cos_half_angle_bounds
    by (simp add: libm_sample_def real_candidates)
qed

section \<open>The tests of slerp\<close>




lemma mag_finite: "mag c < 2 ^ 127 \<Longrightarrow> is_finite c"
proof (rule ccontr)
  assume m: "mag c < 2 ^ 127" and "\<not> is_finite c"
  then have e: "expo c = 255" by (simp add: is_finite_def)
  then have "expo c \<noteq> 0" by simp
  from mag_normal_bounds(1) [OF this] e have "2 powi 128 \<le> mag c" by simp
  with m show False by simp
qed

















section \<open>The error of one operation\<close>

lemma fround_zero: "fround s 0 = Float s 0 0"
  by (simp add: fround_def)

lemma fround_error:
  assumes a: "0 \<le> a" "a \<le> 2 ^ 127"
  shows "is_finite (fround s a)" and "sign (fround s a) = s"
    and "\<bar>mag (fround s a) - a\<bar> \<le> a / 2 ^ 24 + 1 / 2 ^ 150"
proof -
  have "is_finite (fround s a) \<and> sign (fround s a) = s
      \<and> \<bar>mag (fround s a) - a\<bar> \<le> a / 2 ^ 24 + 1 / 2 ^ 150"
  proof (cases "a = 0")
    case True
    then show ?thesis
      by (simp add: fround_zero is_finite_def mag_def mant_def expn_def)
  next
    case False
    with a have pos: "0 < a" by simp
    define e0 where "e0 = max (ilog2 a - 23) (- 149)"
    define x where "x = a / 2 powi e0"
    note v = fround_value [OF pos a(2), of s, folded e0_def, folded x_def]
    have ax: "a = x * 2 powi e0" by (simp add: x_def)
    have "\<bar>of_int (rne x) - x\<bar> \<le> 1 / 2"
      using rne_bounds [of x] by linarith
    then have "\<bar>of_int (rne x) - x\<bar> * 2 powi e0 \<le> 1 / 2 * 2 powi e0"
      by (intro mult_right_mono) simp_all
    moreover have "\<bar>mag (fround s a) - a\<bar> = \<bar>of_int (rne x) - x\<bar> * 2 powi e0"
    proof -
      have "mag (fround s a) - a = (of_int (rne x) - x) * 2 powi e0"
        unfolding v(3) by (simp add: ax algebra_simps)
      then show ?thesis by (simp add: abs_mult)
    qed
    ultimately have d: "\<bar>mag (fround s a) - a\<bar> \<le> 2 powi e0 / 2" by simp
    have "2 powi e0 / 2 \<le> a / 2 ^ 24 + 1 / 2 ^ 150"
    proof (cases "e0 = - 149")
      case True
      then have "(2::rat) powi e0 / 2 = 1 / 2 ^ 150"
        by (simp add: power_int_minus_divide)
      with pos show ?thesis by simp
    next
      case False
      then have e: "e0 = ilog2 a - 23" by (simp add: e0_def max_def split: if_splits)
      have "(2::rat) powi ilog2 a = 2 powi e0 * 2 ^ 23"
        using two_powi_add [of e0 23] e by simp
      with ilog2_bounds(1) [OF pos] have "2 powi e0 * 2 ^ 23 \<le> a" by simp
      then have "2 powi e0 / 2 \<le> a / 2 ^ 24" by simp
      then show ?thesis by simp
    qed
    with d v show ?thesis by simp
  qed
  then show "is_finite (fround s a)" and "sign (fround s a) = s"
    and "\<bar>mag (fround s a) - a\<bar> \<le> a / 2 ^ 24 + 1 / 2 ^ 150"
    by simp_all
qed

lemma eps_facts:
  "0 < eps" "0 < 1 + eps" "1 \<le> 1 + eps" "1 / 2 ^ 24 \<le> eps"
  "1 \<le> (1 - 1 / 2 ^ 24) * (1 + eps)" "0 \<le> eta" "0 < eta"
  by (simp_all add: eps_def eta_def)

lemma pow_eps_ge1: "1 \<le> (1 + eps) ^ k"
  using eps_facts(3) by (rule one_le_power)

lemma pow_eps_pos: "0 < (1 + eps) ^ k"
  using pow_eps_ge1 [of k] by linarith

lemma pow_eps_le2: "k \<le> 20 \<Longrightarrow> (1 + eps) ^ k \<le> 2"
proof -
  assume "k \<le> 20"
  then have "(1 + eps) ^ k \<le> (1 + eps) ^ 20"
    using eps_facts(3) by (intro power_increasing) simp_all
  also have "\<dots> \<le> 2" by (simp add: eps_def power_divide)
  finally show ?thesis .
qed

lemma fround_near:
  assumes "0 \<le> a" "a \<le> 2 ^ 127"
  shows "near 1 1 (of_rat (mag (fround s a))) (of_rat a)"
proof -
  let ?m = "of_rat (mag (fround s a)) :: real" and ?a = "of_rat a :: real"
  have a0: "0 \<le> ?a" using assms(1) by simp
  from fround_error(3) [OF assms, of s]
  have "mag (fround s a) - a \<le> a / 2 ^ 24 + 1 / 2 ^ 150"
    and "a - mag (fround s a) \<le> a / 2 ^ 24 + 1 / 2 ^ 150"
    by linarith+
  then have "(of_rat (mag (fround s a) - a) :: real) \<le> of_rat (a / 2 ^ 24 + 1 / 2 ^ 150)"
    and "(of_rat (a - mag (fround s a)) :: real) \<le> of_rat (a / 2 ^ 24 + 1 / 2 ^ 150)"
    by (simp_all only: of_rat_less_eq)
  then have d: "?m - ?a \<le> ?a / 2 ^ 24 + eta" "?a - ?m \<le> ?a / 2 ^ 24 + eta"
    by (simp_all add: of_rat_add of_rat_diff of_rat_divide of_rat_power eta_def)
  have "?a * 1 \<le> ?a * ((1 - 1 / 2 ^ 24) * (1 + eps))"
    using a0 eps_facts(5) by (intro mult_left_mono) simp_all
  then have "?a / (1 + eps) \<le> ?a * (1 - 1 / 2 ^ 24)"
    using eps_facts(2) by (simp add: pos_divide_le_eq mult.assoc)
  then have lo: "?a / (1 + eps) \<le> ?a - ?a / 2 ^ 24"
    by (simp add: algebra_simps)
  have "?a * (1 + 1 / 2 ^ 24) \<le> ?a * (1 + eps)"
    using a0 eps_facts(4) by (intro mult_left_mono) simp_all
  then have hi: "?a + ?a / 2 ^ 24 \<le> ?a * (1 + eps)"
    by (simp add: algebra_simps)
  have "?a / (1 + eps) - eta \<le> ?m" using lo d(2) by linarith
  moreover have "?m \<le> ?a * (1 + eps) + eta" using hi d(1) by linarith
  ultimately show ?thesis
    unfolding near_def by simp
qed

section \<open>Composing error bounds\<close>

lemma near_refl: "near 0 0 a a"
  by (simp add: near_def)

lemma near_zero: "near k t 0 0"
  by (simp add: near_def eps_facts)

lemma near_mono:
  assumes "near k t a b" "k \<le> k'" "t \<le> t'" "0 \<le> b"
  shows "near k' t' a b"
proof -
  have p: "(1 + eps) ^ k \<le> (1 + eps) ^ k'"
    using assms(2) eps_facts(3) by (intro power_increasing)
  have t: "of_nat t * eta \<le> of_nat t' * eta"
    using assms(3) eps_facts(6) by (intro mult_right_mono) simp_all
  have "b / (1 + eps) ^ k' \<le> b / (1 + eps) ^ k"
    using p assms(4) pow_eps_pos [of k] by (intro divide_left_mono) simp_all
  moreover have "b * (1 + eps) ^ k \<le> b * (1 + eps) ^ k'"
    using p assms(4) by (intro mult_left_mono)
  ultimately show ?thesis
    using assms(1) t unfolding near_def by linarith
qed

lemma near_add:
  assumes "near k t a b" "near k s c d"
  shows "near k (t + s) (a + c) (b + d)"
  using assms unfolding near_def
  by (simp add: add_divide_distrib distrib_right)

lemma near_trans:
  assumes ab: "near k t a b" and bc: "near j s b c" and c: "0 \<le> c" and k: "k \<le> 20"
  shows "near (k + j) (t + 2 * s) a c"
proof -
  let ?P = "(1 + eps) ^ k" and ?Q = "(1 + eps) ^ j"
  have P: "1 \<le> ?P" "0 < ?P" "?P \<le> 2"
    using pow_eps_ge1 pow_eps_pos pow_eps_le2 [OF k] by simp_all
  have Q: "1 \<le> ?Q" "0 < ?Q" using pow_eps_ge1 pow_eps_pos by simp_all
  have se: "0 \<le> of_nat s * eta" using eps_facts(6) by simp
  have PQ: "(1 + eps) ^ (k + j) = ?Q * ?P" by (simp add: power_add mult.commute)
  have "b * ?P \<le> (c * ?Q + of_nat s * eta) * ?P"
    using bc P(2) unfolding near_def by (intro mult_right_mono) simp_all
  moreover have "(c * ?Q + of_nat s * eta) * ?P = c * (?Q * ?P) + (of_nat s * eta) * ?P"
    by (simp add: algebra_simps)
  moreover have "(of_nat s * eta) * ?P \<le> (of_nat s * eta) * 2"
    using se P(3) by (intro mult_left_mono)
  ultimately have up: "b * ?P \<le> c * (?Q * ?P) + 2 * (of_nat s * eta)" by linarith
  have "(c / ?Q - of_nat s * eta) / ?P \<le> b / ?P"
    using bc P(2) unfolding near_def by (intro divide_right_mono) simp_all
  moreover have "(c / ?Q - of_nat s * eta) / ?P = c / (?Q * ?P) - (of_nat s * eta) / ?P"
    by (simp add: diff_divide_distrib)
  moreover have "(of_nat s * eta) * 1 \<le> (of_nat s * eta) * ?P"
    using se P(1) by (intro mult_left_mono)
  then have "(of_nat s * eta) / ?P \<le> of_nat s * eta"
    using P(2) by (simp add: pos_divide_le_eq)
  ultimately have lo: "c / (?Q * ?P) - of_nat s * eta \<le> b / ?P" by linarith
  have nt: "of_nat (t + 2 * s) * eta = of_nat t * eta + 2 * (of_nat s * eta)"
    by (simp add: algebra_simps)
  from ab up lo se show ?thesis
    unfolding near_def PQ nt by linarith
qed

lemma frac_step:
  fixes b p e :: real
  assumes "0 < p" "0 < 1 + e"
  shows "b / p - b / (p * (1 + e)) = b * e / (p * (1 + e))"
proof -
  have "b / p = b * (1 + e) / (p * (1 + e))"
    using assms by simp
  then have "b / p - b / (p * (1 + e)) = (b * (1 + e) - b) / (p * (1 + e))"
    by (simp only: diff_divide_distrib)
  also have "b * (1 + e) - b = b * e"
    by (simp add: algebra_simps)
  finally show ?thesis .
qed

lemma near_absorb:
  assumes ab: "near k t a b" and b: "B \<le> b" "0 \<le> B" and t: "of_nat t * eta \<le> B * eps / 2"
    and k: "k < 20"
  shows "near (Suc k) 0 a b"
proof -
  let ?P = "(1 + eps) ^ k"
  have P: "1 \<le> ?P" "0 < ?P" using pow_eps_ge1 pow_eps_pos by simp_all
  have P2: "?P * (1 + eps) \<le> 2"
    using pow_eps_le2 [of "Suc k"] k by (simp add: mult.commute)
  have b0: "0 \<le> b" using b by simp
  have be: "B * eps / 2 \<le> b * eps / 2"
    using b(1) eps_facts(1) by (simp add: divide_right_mono mult_right_mono)
  have "b * 1 \<le> b * ?P"
    using b0 P(1) by (intro mult_left_mono)
  then have "b * eps \<le> (b * ?P) * eps"
    using eps_facts(1) by (intro mult_right_mono) simp_all
  moreover have "b * (?P * (1 + eps)) = b * ?P + (b * ?P) * eps"
    by (simp add: algebra_simps)
  moreover have "b * eps / 2 \<le> b * eps"
    using b0 eps_facts(1) by simp
  ultimately have up: "b * ?P + b * eps / 2 \<le> b * (?P * (1 + eps))"
    by linarith
  have pe: "0 < ?P * (1 + eps)" using P(2) eps_facts(2) by simp
  have "b / ?P - b / (?P * (1 + eps)) = b * eps / (?P * (1 + eps))"
    using P(2) eps_facts(2) by (rule frac_step)
  moreover have "b * eps / 2 \<le> b * eps / (?P * (1 + eps))"
    using b0 eps_facts(1) P2 pe by (intro divide_left_mono) simp_all
  ultimately have lo: "b / (?P * (1 + eps)) + b * eps / 2 \<le> b / ?P" by linarith
  have ps: "(1 + eps) ^ Suc k = ?P * (1 + eps)" by simp
  from ab t be up lo show ?thesis
    unfolding near_def ps by simp
qed

lemma near_sqrt:
  assumes "near (2 * k) 0 a b" "0 \<le> a" "0 \<le> b"
  shows "near k 0 (sqrt a) (sqrt b)"
proof -
  let ?P = "(1 + eps) ^ k"
  have P: "0 < ?P" using pow_eps_pos by simp
  have P2: "(1 + eps) ^ (2 * k) = ?P\<^sup>2" by (simp add: power_mult power2_eq_square mult.commute power_mult_distrib semiring_normalization_rules(30))
  from assms(1) have lo: "b / ?P\<^sup>2 \<le> a" and hi: "a \<le> b * ?P\<^sup>2"
    unfolding near_def P2 by simp_all
  have "sqrt (b / ?P\<^sup>2) \<le> sqrt a" using lo by simp
  then have l: "sqrt b / ?P \<le> sqrt a"
    using P by (simp add: real_sqrt_divide)
  have "sqrt a \<le> sqrt (b * ?P\<^sup>2)" using hi by simp
  then have h: "sqrt a \<le> sqrt b * ?P"
    using P by (simp add: real_sqrt_mult)
  from l h show ?thesis unfolding near_def by simp
qed

lemma near_divide:
  assumes LM: "near k 0 L M" and M: "0 < M" and L: "0 < L" and X: "0 \<le> X"
  shows "near k 0 (X / L) (X / M)"
proof -
  let ?P = "(1 + eps) ^ k"
  have P: "0 < ?P" using pow_eps_pos by simp
  from LM have lo: "M / ?P \<le> L" and hi: "L \<le> M * ?P"
    unfolding near_def by simp_all
  have "X / L \<le> X / (M / ?P)"
    using lo X M P L by (intro divide_left_mono) simp_all
  then have h: "X / L \<le> X / M * ?P" by simp
  have "X / (M * ?P) \<le> X / L"
    using hi X M P L by (intro divide_left_mono) simp_all
  then have l: "X / M / ?P \<le> X / L" by (simp add: divide_divide_eq_left)
  from l h show ?thesis unfolding near_def by simp
qed

lemma near_square:
  assumes ab: "near k t a b" and a: "0 \<le> a" and b: "0 \<le> b" "b \<le> 2" and k: "k \<le> 20"
    and t: "of_nat t * eta \<le> 1"
  shows "near (2 * k) (9 * t) (a\<^sup>2) (b\<^sup>2)"
proof -
  let ?P = "(1 + eps) ^ k" and ?T = "of_nat t * eta"
  have P: "1 \<le> ?P" "0 < ?P" "?P \<le> 2"
    using pow_eps_ge1 pow_eps_pos pow_eps_le2 [OF k] by simp_all
  have T: "0 \<le> ?T" using eps_facts(6) by simp
  have P2: "(1 + eps) ^ (2 * k) = ?P\<^sup>2"
    by (simp add: power_mult power2_eq_square mult.commute power_mult_distrib semiring_normalization_rules(30))
  from ab have lo: "b / ?P - ?T \<le> a" and hi: "a \<le> b * ?P + ?T"
    unfolding near_def by simp_all
  have T2: "?T\<^sup>2 \<le> ?T"
    using T t by (simp add: power2_eq_square mult_left_le)
  have bP: "b * ?P \<le> 4"
    using b P mult_mono [of b 2 "?P" 2] by simp
  have bP0: "0 \<le> b * ?P" using b P by simp
  have "a\<^sup>2 \<le> (b * ?P + ?T)\<^sup>2"
    using hi a by (intro power_mono) simp_all
  moreover have "(b * ?P + ?T)\<^sup>2 = b\<^sup>2 * ?P\<^sup>2 + 2 * (b * ?P) * ?T + ?T\<^sup>2"
    by (simp add: power2_eq_square algebra_simps)
  moreover have "2 * (b * ?P) * ?T \<le> 2 * 4 * ?T"
    using bP T by (intro mult_right_mono mult_left_mono) simp_all
  ultimately have up: "a\<^sup>2 \<le> b\<^sup>2 * ?P\<^sup>2 + 9 * ?T"
    using T2 by linarith
  have bq: "b / ?P \<le> 2"
    using b P by (simp add: pos_divide_le_eq)
  have bq0: "0 \<le> b / ?P" using b P by simp
  have dn: "b\<^sup>2 / ?P\<^sup>2 - 9 * ?T \<le> a\<^sup>2"
  proof (cases "b / ?P \<le> ?T")
    case True
    then have "(b / ?P)\<^sup>2 \<le> ?T\<^sup>2"
      using bq0 by (intro power_mono) simp_all
    with T2 T have "b\<^sup>2 / ?P\<^sup>2 - 9 * ?T \<le> 0"
      by (simp add: power_divide)
    then show ?thesis using zero_le_power2 [of a] by linarith
  next
    case False
    then have w: "0 \<le> b / ?P - ?T" by simp
    have "(b / ?P - ?T)\<^sup>2 \<le> a\<^sup>2"
      using lo w by (intro power_mono) simp_all
    moreover have "(b / ?P - ?T)\<^sup>2 = b\<^sup>2 / ?P\<^sup>2 - 2 * (b / ?P) * ?T + ?T\<^sup>2"
      by (simp add: power2_eq_square algebra_simps)
    moreover have "2 * (b / ?P) * ?T \<le> 2 * 2 * ?T"
      using bq T by (intro mult_right_mono mult_left_mono) simp_all
    ultimately show ?thesis using T zero_le_power2 [of ?T] by linarith
  qed
  have nt: "of_nat (9 * t) * eta = 9 * ?T" by simp
  from up dn show ?thesis
    unfolding near_def P2 nt by simp
qed

section \<open>Multiplication, addition, division and square root\<close>

lemma rmag_nonneg: "0 \<le> rmag a"
  using mag_nonneg [of a] by (simp add: rmag_def)

lemma rmag_zero_iff: "rmag a = 0 \<longleftrightarrow> is_zero a"
  using mag_eq_0_iff [of a] by (simp add: rmag_def)

lemma le_pow127_rat: "(of_rat q :: real) \<le> 2 ^ 127 \<Longrightarrow> q \<le> 2 ^ 127"
proof -
  assume "(of_rat q :: real) \<le> 2 ^ 127"
  then have "(of_rat q :: real) \<le> of_rat (2 ^ 127)" by (simp add: of_rat_power)
  then show ?thesis by (simp only: of_rat_less_eq)
qed

lemma fmul_near:
  assumes "is_finite a" "is_finite b" "rmag a * rmag b \<le> 2 ^ 127"
  shows "is_finite (a * b)" and "sign (a * b) = (sign a \<noteq> sign b)"
    and "near 1 1 (rmag (a * b)) (rmag a * rmag b)"
proof -
  let ?q = "mag a * mag b"
  have e: "a * b = fround (sign a \<noteq> sign b) ?q"
    using assms(1,2) by (simp add: times_float_def fmul_def finite_not_nan finite_not_inf)
  have q0: "0 \<le> ?q" using mag_nonneg [of a] mag_nonneg [of b] by simp
  have "(of_rat ?q :: real) \<le> 2 ^ 127" using assms(3) by (simp add: rmag_def of_rat_mult)
  then have q1: "?q \<le> 2 ^ 127" by (rule le_pow127_rat)
  show "is_finite (a * b)" and "sign (a * b) = (sign a \<noteq> sign b)"
    unfolding e using fround_error(1,2) [OF q0 q1] by simp_all
  show "near 1 1 (rmag (a * b)) (rmag a * rmag b)"
    unfolding e rmag_def using fround_near [OF q0 q1] by (simp add: of_rat_mult)
qed

lemma fadd_near:
  assumes "is_finite a" "is_finite b" "\<not> sign a" "\<not> sign b" "rmag a + rmag b \<le> 2 ^ 127"
  shows "is_finite (a + b)" and "\<not> sign (a + b)"
    and "near 1 1 (rmag (a + b)) (rmag a + rmag b)"
proof -
  let ?q = "mag a + mag b"
  have q0: "0 \<le> ?q" using mag_nonneg [of a] mag_nonneg [of b] by simp
  have "(of_rat ?q :: real) \<le> 2 ^ 127" using assms(5) by (simp add: rmag_def of_rat_add)
  then have q1: "?q \<le> 2 ^ 127" by (rule le_pow127_rat)
  have e: "a + b = (if ?q = 0 then Float False 0 0 else fround False ?q)"
    using assms(1-4) q0
    by (simp add: plus_float_def fadd_def finite_not_nan finite_not_inf valof_def Let_def)
  have "is_finite (a + b) \<and> \<not> sign (a + b) \<and> near 1 1 (rmag (a + b)) (rmag a + rmag b)"
  proof (cases "?q = 0")
    case True
    then have "rmag a + rmag b = 0" by (simp add: rmag_def flip: of_rat_add)
    moreover have "rmag (Float False 0 0) = 0"
      by (simp add: rmag_def mag_def mant_def expn_def)
    ultimately show ?thesis
      using True by (simp add: e is_finite_def near_zero)
  next
    case False
    then show ?thesis
      using fround_error(1,2) [OF q0 q1, of False] fround_near [OF q0 q1, of False]
      by (simp add: e rmag_def of_rat_add)
  qed
  then show "is_finite (a + b)" and "\<not> sign (a + b)"
    and "near 1 1 (rmag (a + b)) (rmag a + rmag b)"
    by simp_all
qed

lemma fdiv_near:
  assumes "is_finite a" "is_finite b" "\<not> is_zero b" "rmag a / rmag b \<le> 2 ^ 127"
  shows "is_finite (a / b)" and "sign (a / b) = (sign a \<noteq> sign b)"
    and "near 1 1 (rmag (a / b)) (rmag a / rmag b)"
proof -
  let ?q = "mag a / mag b"
  have e: "a / b = fround (sign a \<noteq> sign b) ?q"
    using assms(1-3) by (simp add: divide_float_def fdiv_def finite_not_nan finite_not_inf)
  have q0: "0 \<le> ?q" using mag_nonneg [of a] mag_nonneg [of b] by simp
  have "(of_rat ?q :: real) \<le> 2 ^ 127" using assms(4) by (simp add: rmag_def of_rat_divide)
  then have q1: "?q \<le> 2 ^ 127" by (rule le_pow127_rat)
  show "is_finite (a / b)" and "sign (a / b) = (sign a \<noteq> sign b)"
    unfolding e using fround_error(1,2) [OF q0 q1] by simp_all
  show "near 1 1 (rmag (a / b)) (rmag a / rmag b)"
    unfolding e rmag_def using fround_near [OF q0 q1] by (simp add: of_rat_divide)
qed

lemma isqrt_bounds:
  "0 \<le> n \<Longrightarrow> 0 \<le> isqrt n \<and> isqrt n * isqrt n \<le> n \<and> n < (isqrt n + 1) * (isqrt n + 1)"
proof (induction n rule: isqrt.induct)
  case (1 n)
  show ?case
  proof (cases "n < 2")
    case True
    then have s: "isqrt n = n" by (subst isqrt.simps) simp
    from True "1.prems" have "n = 0 \<or> n = 1" by linarith
    then show ?thesis unfolding s by auto
  next
    case False
    define q where "q = isqrt (n div 4)"
    have "0 \<le> n div 4" using "1.prems" by simp
    from "1.IH" [OF False this]
    have q: "0 \<le> q" "q * q \<le> n div 4" "n div 4 < (q + 1) * (q + 1)"
      by (simp_all add: q_def)
    have d: "4 * (n div 4) \<le> n" "n \<le> 4 * (n div 4) + 3" by simp_all
    have lo: "(2 * q) * (2 * q) \<le> n"
      using q(2) d(1) by (simp add: algebra_simps)
    have "n div 4 + 1 \<le> (q + 1) * (q + 1)" using q(3) by simp
    then have hi: "n < (2 * q + 2) * (2 * q + 2)"
      using d(2) by (simp add: algebra_simps)
    have s: "isqrt n = (if (2 * q + 1) * (2 * q + 1) \<le> n then 2 * q + 1 else 2 * q)"
      using False by (subst isqrt.simps) (simp add: Let_def q_def)
    show ?thesis
      using q(1) lo hi by (auto simp add: s algebra_simps)
  qed
qed

lemma mant_pos: "\<not> is_zero a \<Longrightarrow> 1 \<le> mant a"
proof -
  assume "\<not> is_zero a"
  then have "mag a \<noteq> 0" by (simp add: mag_eq_0_iff)
  then have "mant a \<noteq> 0" by (auto simp add: mag_def)
  moreover have "0 \<le> mant a" using uint_frac_bounds(1) [of "frac a"] by (simp add: mant_def)
  ultimately show ?thesis by linarith
qed

lemma expn_ge: "- 149 \<le> expn a"
proof (cases "expo a = 0")
  case True
  then show ?thesis by (simp add: expn_def)
next
  case False
  then have "uint (expo a) \<noteq> 0" by (simp add: uint_0_iff)
  then have "1 \<le> uint (expo a)" using uint_expo_bounds(1) [of "expo a"] by linarith
  with False show ?thesis by (simp add: expn_def)
qed

lemma finite_expo_le: "is_finite a \<Longrightarrow> uint (expo a) \<le> 254"
proof -
  assume "is_finite a"
  then have "uint (expo a) \<noteq> uint (255 :: 8 word)"
    unfolding is_finite_def by (simp only: word_uint_eq_iff [symmetric] not_False_eq_True)
  then show ?thesis using uint_expo_bounds(2) [of "expo a"] by simp
qed

lemma fsqrt_scaling:
  fixes a :: float
  defines "m \<equiv> (if even (expn a) then mant a else 2 * mant a)"
    and "e \<equiv> (if even (expn a) then expn a else expn a - 1)"
  shows "mag a = of_int (m * 4 ^ 26) * (2 powi (e div 2 - 26) * 2 powi (e div 2 - 26))"
proof -
  have ev: "even e" by (simp add: e_def)
  then have "e div 2 - 26 + (e div 2 - 26) = e - 52" by (elim evenE) simp
  then have k: "(2::rat) powi (e div 2 - 26) * 2 powi (e div 2 - 26) = 2 powi (e - 52)"
    using two_powi_add [of "e div 2 - 26" "e div 2 - 26"] by simp
  have "(2::rat) powi (e - 52 + 52) = 2 powi (e - 52) * 2 powi 52" by (rule two_powi_add)
  then have p: "(2::rat) powi (e - 52) * 4 ^ 26 = 2 powi e" by simp
  have "mag a = of_int m * 2 powi e"
  proof (cases "even (expn a)")
    case True
    then show ?thesis by (simp add: m_def e_def mag_def)
  next
    case False
    have "(2::rat) powi (expn a - 1 + 1) = 2 powi (expn a - 1) * 2 powi 1" by (rule two_powi_add)
    then have "(2::rat) powi expn a = 2 powi (expn a - 1) * 2" by simp
    with False show ?thesis by (simp add: m_def e_def mag_def)
  qed
  also have "\<dots> = of_int m * (2 powi (e - 52) * 4 ^ 26)" by (simp only: p)
  finally show ?thesis unfolding k by (simp add: mult.assoc mult.commute)
qed

lemma fsqrt_near:
  assumes fin: "is_finite a" and nz: "\<not> is_zero a" and pos: "\<not> sign a"
  shows "is_finite (fsqrt a)" and "\<not> sign (fsqrt a)"
    and "near 3 0 (rmag (fsqrt a)) (sqrt (rmag a))"
proof -
  define m where "m = (if even (expn a) then mant a else 2 * mant a)"
  define e where "e = (if even (expn a) then expn a else expn a - 1)"
  define n where "n = m * 4 ^ 26"
  define s where "s = isqrt n"
  define d :: rat where "d = (if s * s = n then 0 else 1 / 2)"
  define Kq :: rat where "Kq = 2 powi (e div 2 - 26)"
  define r where "r = (of_int s + d) * Kq"
  define K :: real where "K = of_rat Kq"
  define A where "A = rmag a"
  have f: "fsqrt a = fround False r"
    using fin nz pos
    by (simp add: fsqrt_def finite_not_nan finite_not_inf Let_def r_def d_def s_def n_def
        m_def e_def Kq_def)
  have m1: "1 \<le> m" using mant_pos [OF nz] by (simp add: m_def)
  then have n52: "2 ^ 52 \<le> n" by (simp add: n_def)
  then have n0: "0 \<le> n" by simp
  note sb = isqrt_bounds [OF n0, folded s_def]
  have s26: "2 ^ 26 \<le> s"
  proof (rule ccontr)
    assume "\<not> 2 ^ 26 \<le> s"
    then have "s + 1 \<le> 2 ^ 26" "0 \<le> s + 1" using sb by simp_all
    then have "(s + 1) * (s + 1) \<le> 2 ^ 26 * 2 ^ 26" by (intro mult_mono) simp_all
    with sb n52 show False by simp
  qed
  have Kq0: "0 < Kq" by (simp add: Kq_def)
  then have K0: "0 < K" by (simp add: K_def)
  have "mag a = of_int n * (Kq * Kq)"
    unfolding n_def Kq_def m_def e_def by (rule fsqrt_scaling)
  then have A: "A = of_int n * (K * K)"
    by (simp add: A_def rmag_def K_def of_rat_mult)
  have sqA: "sqrt A = sqrt (of_int n) * K"
    unfolding A using K0 by (simp add: real_sqrt_mult)
  \<comment> \<open>the integer root brackets the real root\<close>
  have "(of_int (s * s) :: real) \<le> of_int n" "(of_int n :: real) < of_int ((s + 1) * (s + 1))"
    using sb by (simp_all only: of_int_le_iff of_int_less_iff)
  then have "(of_int s)\<^sup>2 \<le> (of_int n :: real)" "(of_int n :: real) < (of_int s + 1)\<^sup>2"
    by (simp_all add: power2_eq_square)
  then have "sqrt ((of_int s)\<^sup>2) \<le> sqrt (of_int n)" "sqrt (of_int n) < sqrt ((of_int s + 1)\<^sup>2)"
    by (simp_all only: real_sqrt_le_iff real_sqrt_less_iff)
  moreover have sr0: "(0::real) \<le> of_int s" using sb by simp
  ultimately have root: "of_int s \<le> sqrt (of_int n)" "sqrt (of_int n) < of_int s + 1"
    by simp_all
  have "(of_int (2 ^ 26) :: real) \<le> of_int s" using s26 by (simp only: of_int_le_iff)
  then have sr26: "(2::real) ^ 26 \<le> of_int s" by simp
  have "1 / 2 ^ 24 * 2 ^ 26 \<le> eps * of_int s"
    using eps_facts(4) sr26 by (intro mult_mono) simp_all
  then have se: "4 \<le> of_int s * eps" by (simp add: mult.commute)
  have d: "0 \<le> d" "d \<le> 1 / 2" by (simp_all add: d_def)
  define X :: real where "X = of_int s + of_rat d"
  have "(of_rat 0 :: real) \<le> of_rat d" "(of_rat d :: real) \<le> of_rat (1 / 2)"
    using d by (simp_all only: of_rat_less_eq)
  then have dr: "(0::real) \<le> of_rat d" "(of_rat d :: real) \<le> 1 / 2"
    by (simp_all add: of_rat_divide)
  have X: "of_int s \<le> X" "X \<le> of_int s + 1 / 2" using dr by (simp_all add: X_def)
  have rX: "of_rat r = X * K"
    by (simp add: r_def X_def K_def of_rat_mult of_rat_add)
  have e1: "of_int s + 1 \<le> of_int s * (1 + eps)" using se by (simp add: algebra_simps)
  have "of_int s * (1 + eps) \<le> X * (1 + eps)"
    using X(1) eps_facts(2) by (intro mult_right_mono) simp_all
  with root(2) e1 have up: "sqrt (of_int n) \<le> X * (1 + eps)" by linarith
  have "of_int s * (1 + eps) \<le> sqrt (of_int n) * (1 + eps)"
    using root(1) eps_facts(2) by (intro mult_right_mono) simp_all
  with X(2) e1 have lo: "X \<le> sqrt (of_int n) * (1 + eps)" by linarith
  have n1: "near 1 0 (of_rat r) (sqrt A)"
  proof -
    have "sqrt (of_int n) * K \<le> X * (1 + eps) * K"
      using up K0 by (intro mult_right_mono) simp_all
    then have "sqrt A / (1 + eps) \<le> of_rat r"
      unfolding sqA rX using eps_facts(2) by (simp add: pos_divide_le_eq algebra_simps)
    moreover have "X * K \<le> sqrt (of_int n) * (1 + eps) * K"
      using lo K0 by (intro mult_right_mono) simp_all
    then have "of_rat r \<le> sqrt A * (1 + eps)"
      unfolding sqA rX by (simp add: algebra_simps)
    ultimately show ?thesis by (simp add: near_def)
  qed
  \<comment> \<open>the range of the root\<close>
  have Alo: "1 / 2 ^ 149 \<le> A"
  proof -
    have "(2::rat) powi (- 149) \<le> 2 powi expn a" by (intro two_powi_mono expn_ge)
    moreover have "(1::rat) \<le> of_int (mant a)" using mant_pos [OF nz] by simp
    ultimately have "1 * 2 powi (- 149) \<le> of_int (mant a) * (2::rat) powi expn a"
      by (intro mult_mono) simp_all
    then have "1 / 2 ^ 149 \<le> mag a" by (simp add: mag_def power_int_minus_divide)
    then have "(of_rat (1 / 2 ^ 149) :: real) \<le> of_rat (mag a)" by (simp only: of_rat_less_eq)
    then show ?thesis by (simp add: A_def rmag_def of_rat_divide of_rat_power)
  qed
  have Ahi: "A \<le> 2 ^ 128"
  proof -
    have "mag a \<le> 2 powi 128"
    proof (cases "expo a = 0")
      case True
      from mag_subnormal_bound [OF this] have "mag a < 2 powi (- 126)" .
      moreover have "(2::rat) powi (- 126) \<le> 2 powi 128" by (intro two_powi_mono) simp
      ultimately show ?thesis by linarith
    next
      case False
      have "(2::rat) powi (uint (expo a) - 126) \<le> 2 powi 128"
        using finite_expo_le [OF fin] by (intro two_powi_mono) simp
      with mag_normal_bounds(2) [OF False] show ?thesis by linarith
    qed
    then have "(of_rat (mag a) :: real) \<le> of_rat (2 ^ 128)" by (simp only: of_rat_less_eq) simp
    then show ?thesis by (simp add: A_def rmag_def of_rat_power)
  qed
  have q1: "sqrt (1 / 2 ^ 150) = 1 / 2 ^ 75"
    by (simp add: real_sqrt_divide real_sqrt_power [symmetric] flip: power_mult)
  have q2: "sqrt (2 ^ 128) = (2::real) ^ 64"
    by (simp add: real_sqrt_power [symmetric] flip: power_mult)
  have "sqrt (1 / 2 ^ 150) \<le> sqrt A" using Alo by (simp only: real_sqrt_le_iff) simp
  then have rlo: "1 / 2 ^ 75 \<le> sqrt A" unfolding q1 .
  have "sqrt A \<le> sqrt (2 ^ 128)" using Ahi by (simp only: real_sqrt_le_iff)
  then have rhi: "sqrt A \<le> 2 ^ 64" unfolding q2 .
  have r0: "0 \<le> r" using d sb Kq0 by (simp add: r_def)
  have "of_rat r \<le> sqrt A * (1 + eps)" using n1 by (simp add: near_def)
  moreover have "sqrt A * (1 + eps) \<le> 2 ^ 64 * 2"
    using rhi pow_eps_le2 [of 1] eps_facts(2) by (intro mult_mono) simp_all
  ultimately have "(of_rat r :: real) \<le> 2 ^ 127" by simp
  then have r1: "r \<le> 2 ^ 127" by (rule le_pow127_rat)
  show "is_finite (fsqrt a)" and "\<not> sign (fsqrt a)"
    unfolding f using fround_error(1,2) [OF r0 r1, of False] by simp_all
  have "near 1 1 (rmag (fsqrt a)) (of_rat r)"
    unfolding f rmag_def by (rule fround_near [OF r0 r1])
  moreover have "(0::real) \<le> 1 / 2 ^ 75" by simp
  with rlo have A0: "0 \<le> sqrt A" by linarith
  ultimately have "near (1 + 1) (1 + 2 * 0) (rmag (fsqrt a)) (sqrt A)"
    using n1 by (intro near_trans) simp_all
  then have n2: "near 2 1 (rmag (fsqrt a)) (sqrt A)"
    by (simp only: one_add_one mult_zero_right add_0_right)
  have "near (Suc 2) 0 (rmag (fsqrt a)) (sqrt A)"
  proof (rule near_absorb [OF n2 rlo])
    show "(0::real) \<le> 1 / 2 ^ 75" by simp
    show "of_nat 1 * eta \<le> 1 / 2 ^ 75 * eps / 2" by (simp add: eta_def eps_def)
    show "(2::nat) < 20" by simp
  qed
  then show "near 3 0 (rmag (fsqrt a)) (sqrt (rmag a))"
    by (simp add: A_def)
qed

section \<open>The length of a normalized vector\<close>

lemma near_chain:
  assumes "near k t a b" "near j s b c" "0 \<le> c" "k \<le> 20" "k + j = K" "t + 2 * s = T"
  shows "near K T a c"
  using near_trans [OF assms(1-4)] assms(5,6) by simp

lemma near_absorbed:
  assumes "near k t a b" "B \<le> b" "0 \<le> B" "of_nat t * eta \<le> B * eps / 2" "k < 20" "Suc k = K"
  shows "near K 0 a b"
  using near_absorb [OF assms(1-5)] assms(6) by simp

lemma near_root:
  assumes "near K 0 a b" "0 \<le> a" "0 \<le> b" "K = 2 * k"
  shows "near k 0 (sqrt a) (sqrt b)"
  using near_sqrt [of k a b] assms by simp

lemma near_squared:
  assumes "near k t a b" "0 \<le> a" "0 \<le> b" "b \<le> 2" "k \<le> 20" "of_nat t * eta \<le> 1"
    "2 * k = K" "9 * t = T"
  shows "near K T (a\<^sup>2) (b\<^sup>2)"
  using near_square [OF assms(1-6)] assms(7,8) by simp

lemma near_upper:
  assumes "near k t a b" "0 \<le> b" "k \<le> 20"
  shows "a \<le> 2 * b + of_nat t * eta"
proof -
  have "b * (1 + eps) ^ k \<le> b * 2"
    using assms(2) pow_eps_le2 [OF assms(3)] by (intro mult_left_mono)
  with assms(1) show ?thesis unfolding near_def by linarith
qed

lemma near_lower:
  assumes "near k t a b" "0 \<le> b" "k \<le> 20"
  shows "b / 2 - of_nat t * eta \<le> a"
proof -
  have "b / 2 \<le> b / (1 + eps) ^ k"
    using assms(2) pow_eps_le2 [OF assms(3)] pow_eps_pos [of k] by (intro divide_left_mono) simp_all
  with assms(1) show ?thesis unfolding near_def by linarith
qed

lemma eta_small: "of_nat t * eta \<le> 1" if "t \<le> 100"
proof -
  have "of_nat t * eta \<le> of_nat 100 * eta"
    using that eps_facts(6) by (intro mult_right_mono) simp_all
  also have "\<dots> \<le> 1" by (simp add: eta_def)
  finally show ?thesis .
qed

lemma square_near:
  assumes "is_finite x" "rmag x \<le> 2 ^ 60"
  shows "is_finite (x * x)" and "\<not> sign (x * x)"
    and "near 1 1 (rmag (x * x)) ((rmag x)\<^sup>2)" and "rmag (x * x) \<le> 2 ^ 122"
proof -
  have b: "rmag x * rmag x \<le> 2 ^ 60 * 2 ^ 60"
    using assms(2) rmag_nonneg [of x] by (intro mult_mono) simp_all
  then have b': "rmag x * rmag x \<le> 2 ^ 127" by simp
  note m = fmul_near [OF assms(1) assms(1) b']
  show "is_finite (x * x)" by (rule m(1))
  show "\<not> sign (x * x)" using m(2) by simp
  show n: "near 1 1 (rmag (x * x)) ((rmag x)\<^sup>2)" using m(3) by (simp add: power2_eq_square)
  have "rmag (x * x) \<le> 2 * (rmag x)\<^sup>2 + of_nat 1 * eta"
    by (rule near_upper [OF n]) simp_all
  moreover have "of_nat 1 * eta \<le> 1" by (rule eta_small) simp
  ultimately show "rmag (x * x) \<le> 2 ^ 122" using b by (simp add: power2_eq_square)
qed

lemma dot_near:
  assumes f: "is_finite x" "is_finite y" "is_finite z"
    and b: "rmag x \<le> 2 ^ 60" "rmag y \<le> 2 ^ 60" "rmag z \<le> 2 ^ 60"
  shows "is_finite (Vec3_dot (Vec3 x y z) (Vec3 x y z))"
    and "\<not> sign (Vec3_dot (Vec3 x y z) (Vec3 x y z))"
    and "near 3 13 (rmag (Vec3_dot (Vec3 x y z) (Vec3 x y z)))
           ((rmag x)\<^sup>2 + (rmag y)\<^sup>2 + (rmag z)\<^sup>2)"
proof -
  note px = square_near [OF f(1) b(1)]
  note py = square_near [OF f(2) b(2)]
  note pz = square_near [OF f(3) b(3)]
  let ?X = "(rmag x)\<^sup>2" and ?Y = "(rmag y)\<^sup>2" and ?Z = "(rmag z)\<^sup>2"
  have s1b: "rmag (x * x) + rmag (y * y) \<le> 2 ^ 127" using px(4) py(4) by simp
  note s1 = fadd_near [OF px(1) py(1) px(2) py(2) s1b]
  have "near 1 (1 + 1) (rmag (x * x) + rmag (y * y)) (?X + ?Y)"
    by (rule near_add [OF px(3) py(3)])
  then have n1: "near 2 5 (rmag (x * x + y * y)) (?X + ?Y)"
    by (rule near_chain [OF s1(3)]) simp_all
  have "rmag (x * x + y * y) \<le> 2 * (rmag (x * x) + rmag (y * y)) + of_nat 1 * eta"
    using rmag_nonneg [of "x * x"] rmag_nonneg [of "y * y"]
    by (intro near_upper [OF s1(3)]) simp_all
  moreover have "of_nat 1 * eta \<le> 1" by (rule eta_small) simp
  ultimately have s1r: "rmag (x * x + y * y) \<le> 2 ^ 124 + 1" using px(4) py(4) by simp
  have s2b: "rmag (x * x + y * y) + rmag (z * z) \<le> 2 ^ 127" using s1r pz(4) by simp
  note s2 = fadd_near [OF s1(1) pz(1) s1(2) pz(2) s2b]
  have "near 2 1 (rmag (z * z)) ?Z"
    by (rule near_mono [OF pz(3)]) simp_all
  from near_add [OF n1 this]
  have "near 2 (5 + 1) (rmag (x * x + y * y) + rmag (z * z)) (?X + ?Y + ?Z)" .
  then have n2: "near 3 13 (rmag (x * x + y * y + z * z)) (?X + ?Y + ?Z)"
    by (rule near_chain [OF s2(3)]) simp_all
  show "is_finite (Vec3_dot (Vec3 x y z) (Vec3 x y z))"
    and "\<not> sign (Vec3_dot (Vec3 x y z) (Vec3 x y z))"
    and "near 3 13 (rmag (Vec3_dot (Vec3 x y z) (Vec3 x y z))) (?X + ?Y + ?Z)"
    using s2(1,2) n2 by (simp_all add: Vec3_dot_def)
qed

lemma length_near:
  assumes f: "is_finite x" "is_finite y" "is_finite z"
    and b: "rmag x \<le> 2 ^ 60" "rmag y \<le> 2 ^ 60" "rmag z \<le> 2 ^ 60"
    and S: "B \<le> S" "0 < B" "of_nat 13 * eta \<le> B * eps / 2"
    and S_def: "S = (rmag x)\<^sup>2 + (rmag y)\<^sup>2 + (rmag z)\<^sup>2"
  shows "is_finite (Vec3_length (Vec3 x y z))" and "\<not> sign (Vec3_length (Vec3 x y z))"
    and "near 5 0 (rmag (Vec3_length (Vec3 x y z))) (sqrt S)"
proof -
  let ?D = "Vec3_dot (Vec3 x y z) (Vec3 x y z)"
  note d = dot_near [OF f b, folded S_def]
  have S0: "0 < S" using S(1,2) by linarith
  have B0: "0 \<le> B" using S(2) by simp
  have n4: "near 4 0 (rmag ?D) S"
    by (rule near_absorbed [OF d(3) S(1) B0 S(3)]) simp_all
  have "S / (1 + eps) ^ 4 \<le> rmag ?D" using n4 by (simp add: near_def)
  moreover have "0 < S / (1 + eps) ^ 4" using S0 pow_eps_pos [of 4] by simp
  ultimately have D0: "0 < rmag ?D" by linarith
  then have nz: "\<not> is_zero ?D" using rmag_zero_iff [of ?D] by simp
  note r = fsqrt_near [OF d(1) nz d(2)]
  have "near 2 0 (sqrt (rmag ?D)) (sqrt S)"
    using S0 D0 by (intro near_root [OF n4]) simp_all
  then have "near 5 0 (rmag (fsqrt ?D)) (sqrt S)"
    using S0 by (intro near_chain [OF r(3)]) simp_all
  then show "near 5 0 (rmag (Vec3_length (Vec3 x y z))) (sqrt S)"
    by (simp add: Vec3_length_def)
  show "is_finite (Vec3_length (Vec3 x y z))" and "\<not> sign (Vec3_length (Vec3 x y z))"
    using r(1,2) by (simp_all add: Vec3_length_def)
qed

lemma quotient_near:
  assumes c: "is_finite c" and L: "is_finite L" "near 5 0 (rmag L) r" and r: "0 < r"
    and cr: "rmag c \<le> r"
  shows "is_finite (c / L)" and "near 6 1 (rmag (c / L)) (rmag c / r)"
    and "rmag (c / L) \<le> 5"
proof -
  have "r / 2 - of_nat 0 * eta \<le> rmag L"
    using r by (intro near_lower [OF L(2)]) simp_all
  then have Lr: "r / 2 \<le> rmag L" by simp
  with r have L0: "0 < rmag L" by linarith
  then have nz: "\<not> is_zero L" using rmag_zero_iff [of L] by simp
  have "rmag c / rmag L \<le> r / (r / 2)"
    using cr Lr r rmag_nonneg [of c] by (intro frac_le) simp_all
  also have "\<dots> = 2" using r by simp
  finally have q2: "rmag c / rmag L \<le> 2" .
  then have q: "rmag c / rmag L \<le> 2 ^ 127" by simp
  note d = fdiv_near [OF c L(1) nz q]
  show "is_finite (c / L)" by (rule d(1))
  have "near 5 0 (rmag c / rmag L) (rmag c / r)"
    using rmag_nonneg [of c] by (intro near_divide [OF L(2) r L0])
  then show n: "near 6 1 (rmag (c / L)) (rmag c / r)"
    using r rmag_nonneg [of c] by (intro near_chain [OF d(3)]) simp_all
  have "rmag (c / L) \<le> 2 * (rmag c / rmag L) + of_nat 1 * eta"
    using rmag_nonneg [of c] L0 by (intro near_upper [OF d(3)]) simp_all
  moreover have "of_nat 1 * eta \<le> 1" by (rule eta_small) simp
  ultimately show "rmag (c / L) \<le> 5" using q2 by linarith
qed

lemma rmag_le_root:
  assumes "(rmag c)\<^sup>2 \<le> S"
  shows "rmag c \<le> sqrt S"
proof -
  have "sqrt ((rmag c)\<^sup>2) \<le> sqrt S" using assms by (simp only: real_sqrt_le_iff)
  then show ?thesis using rmag_nonneg [of c] by simp
qed

lemma normalize_length_near:
  assumes f: "is_finite x" "is_finite y" "is_finite z"
    and b: "rmag x \<le> 2 ^ 60" "rmag y \<le> 2 ^ 60" "rmag z \<le> 2 ^ 60"
    and lo: "1 / 2 ^ 60 \<le> rmag x \<or> 1 / 2 ^ 60 \<le> rmag y \<or> 1 / 2 ^ 60 \<le> rmag z"
  shows "is_finite (Vec3_length (Vec3_normalize (Vec3 x y z)))"
    and "\<not> sign (Vec3_length (Vec3_normalize (Vec3 x y z)))"
    and "near 11 0 (rmag (Vec3_length (Vec3_normalize (Vec3 x y z)))) 1"
proof -
  define S where "S = (rmag x)\<^sup>2 + (rmag y)\<^sup>2 + (rmag z)\<^sup>2"
  define r where "r = sqrt S"
  define L where "L = Vec3_length (Vec3 x y z)"
  have sq: "1 / 2 ^ 120 \<le> (rmag c)\<^sup>2" if "1 / 2 ^ 60 \<le> rmag c" for c
  proof -
    have "(1 / 2 ^ 60)\<^sup>2 \<le> (rmag c)\<^sup>2" using that by (intro power_mono) simp_all
    then show ?thesis by (simp add: power_divide)
  qed
  have SB: "1 / 2 ^ 120 \<le> S"
    using lo sq [of x] sq [of y] sq [of z]
      zero_le_power2 [of "rmag x"] zero_le_power2 [of "rmag y"] zero_le_power2 [of "rmag z"]
    unfolding S_def by linarith
  have "(0::real) < 1 / 2 ^ 120" by simp
  with SB have S0: "0 < S" by linarith
  then have r0: "0 < r" by (simp add: r_def)
  have rr: "r\<^sup>2 = S" using S0 by (simp add: r_def)
  have l: "is_finite L" "near 5 0 (rmag L) r"
    unfolding L_def r_def
    by (rule length_near [OF f b SB _ _ S_def]; simp add: eta_def eps_def)+
  have cr: "rmag x \<le> r" "rmag y \<le> r" "rmag z \<le> r"
    unfolding r_def
    using zero_le_power2 [of "rmag x"] zero_le_power2 [of "rmag y"] zero_le_power2 [of "rmag z"]
    by (intro rmag_le_root; simp add: S_def)+
  note qx = quotient_near [OF f(1) l r0 cr(1)]
  note qy = quotient_near [OF f(2) l r0 cr(2)]
  note qz = quotient_near [OF f(3) l r0 cr(3)]
  have nb: "rmag (x / L) \<le> 2 ^ 60" "rmag (y / L) \<le> 2 ^ 60" "rmag (z / L) \<le> 2 ^ 60"
    using qx(3) qy(3) qz(3) by simp_all
  let ?n = "Vec3 (x / L) (y / L) (z / L)"
  let ?D = "Vec3_dot ?n ?n"
  have nrm: "Vec3_normalize (Vec3 x y z) = ?n"
    by (simp add: Vec3_normalize_def Vec3_div_def L_def)
  note d = dot_near [OF qx(1) qy(1) qz(1) nb]
  have q1: "rmag c / r \<le> 2" "0 \<le> rmag c / r" if "rmag c \<le> r" for c
    using that r0 rmag_nonneg [of c] by (simp_all add: pos_divide_le_eq)
  have e1: "of_nat 1 * eta \<le> 1" by (rule eta_small) simp
  have sx: "near 12 9 ((rmag (x / L))\<^sup>2) ((rmag x / r)\<^sup>2)"
    using rmag_nonneg [of "x / L"] q1 [OF cr(1)] e1 by (intro near_squared [OF qx(2)]) simp_all
  have sy: "near 12 9 ((rmag (y / L))\<^sup>2) ((rmag y / r)\<^sup>2)"
    using rmag_nonneg [of "y / L"] q1 [OF cr(2)] e1 by (intro near_squared [OF qy(2)]) simp_all
  have sz: "near 12 9 ((rmag (z / L))\<^sup>2) ((rmag z / r)\<^sup>2)"
    using rmag_nonneg [of "z / L"] q1 [OF cr(3)] e1 by (intro near_squared [OF qz(2)]) simp_all
  have one: "(rmag x / r)\<^sup>2 + (rmag y / r)\<^sup>2 + (rmag z / r)\<^sup>2 = 1"
  proof -
    have "(rmag x / r)\<^sup>2 + (rmag y / r)\<^sup>2 + (rmag z / r)\<^sup>2 = S / r\<^sup>2"
      by (simp add: power_divide S_def add_divide_distrib)
    also have "\<dots> = 1" using S0 by (simp add: rr)
    finally show ?thesis .
  qed
  from near_add [OF near_add [OF sx sy] sz]
  have "near 12 (9 + 9 + 9) ((rmag (x / L))\<^sup>2 + (rmag (y / L))\<^sup>2 + (rmag (z / L))\<^sup>2) 1"
    by (simp only: one)
  then have n15: "near 15 67 (rmag ?D) 1"
    by (rule near_chain [OF d(3)]) simp_all
  have n16: "near 16 0 (rmag ?D) 1"
    by (rule near_absorbed [OF n15, of 1]) (simp_all add: eta_def eps_def)
  have "1 / (1 + eps) ^ 16 \<le> rmag ?D" using n16 by (simp add: near_def)
  moreover have "0 < 1 / (1 + eps) ^ 16" using pow_eps_pos [of 16] by simp
  ultimately have D0: "0 < rmag ?D" by linarith
  then have nz: "\<not> is_zero ?D" using rmag_zero_iff [of ?D] by simp
  note s = fsqrt_near [OF d(1) nz d(2)]
  have "near 8 0 (sqrt (rmag ?D)) (sqrt 1)"
    using D0 by (intro near_root [OF n16]) simp_all
  then have "near 8 0 (sqrt (rmag ?D)) 1" by simp
  then have "near 11 0 (rmag (fsqrt ?D)) 1"
    by (rule near_chain [OF s(3)]) simp_all
  then show "near 11 0 (rmag (Vec3_length (Vec3_normalize (Vec3 x y z)))) 1"
    by (simp add: nrm Vec3_length_def)
  show "is_finite (Vec3_length (Vec3_normalize (Vec3 x y z)))"
    and "\<not> sign (Vec3_length (Vec3_normalize (Vec3 x y z)))"
    using s(1,2) by (simp_all add: nrm Vec3_length_def)
qed

lemma eps_eleven:
  "(1 + eps) ^ 11 \<le> 1 + 3 / 2 ^ 22" "(1 - 3 / 2 ^ 22) * (1 + eps) ^ 11 \<le> 1"
  by (simp_all add: eps_def power_divide)

lemma rmag_le_iff: "rmag c \<le> 2 ^ 60 \<longleftrightarrow> mag c \<le> 2 ^ 60"
  and rmag_ge_iff: "1 / 2 ^ 60 \<le> rmag c \<longleftrightarrow> 1 / 2 ^ 60 \<le> mag c"
proof -
  have "(of_rat (mag c) :: real) \<le> of_rat (2 ^ 60) \<longleftrightarrow> mag c \<le> 2 ^ 60"
    by (rule of_rat_less_eq)
  then show "rmag c \<le> 2 ^ 60 \<longleftrightarrow> mag c \<le> 2 ^ 60"
    by (simp add: rmag_def of_rat_power)
  have "(of_rat (1 / 2 ^ 60) :: real) \<le> of_rat (mag c) \<longleftrightarrow> 1 / 2 ^ 60 \<le> mag c"
    by (rule of_rat_less_eq)
  then show "1 / 2 ^ 60 \<le> rmag c \<longleftrightarrow> 1 / 2 ^ 60 \<le> mag c"
    by (simp add: rmag_def of_rat_power of_rat_divide)
qed

lemma normalize_length_bound:
  assumes b: "mag x \<le> 2 ^ 60" "mag y \<le> 2 ^ 60" "mag z \<le> 2 ^ 60"
    and lo: "1 / 2 ^ 60 \<le> mag x \<or> 1 / 2 ^ 60 \<le> mag y \<or> 1 / 2 ^ 60 \<le> mag z"
  shows "is_finite (Vec3_length (Vec3_normalize (Vec3 x y z)))"
    and "\<bar>valof (Vec3_length (Vec3_normalize (Vec3 x y z))) - 1\<bar> \<le> 3 / 2 ^ 22"
proof -
  let ?L = "Vec3_length (Vec3_normalize (Vec3 x y z))"
  have f: "is_finite x" "is_finite y" "is_finite z"
    using b by (intro mag_finite; simp)+
  have b': "rmag x \<le> 2 ^ 60" "rmag y \<le> 2 ^ 60" "rmag z \<le> 2 ^ 60"
    using b by (simp_all only: rmag_le_iff)
  have lo': "1 / 2 ^ 60 \<le> rmag x \<or> 1 / 2 ^ 60 \<le> rmag y \<or> 1 / 2 ^ 60 \<le> rmag z"
    using lo by (simp only: rmag_ge_iff)
  note n = normalize_length_near [OF f b' lo']
  show "is_finite ?L" by (rule n(1))
  have v: "valof ?L = mag ?L" using n(2) by (simp add: valof_def)
  have "1 / (1 + eps) ^ 11 \<le> rmag ?L" "rmag ?L \<le> (1 + eps) ^ 11"
    using n(3) by (simp_all add: near_def)
  moreover have "1 - 3 / 2 ^ 22 \<le> 1 / (1 + eps) ^ 11"
    using eps_eleven(2) pow_eps_pos [of 11] by (simp add: pos_le_divide_eq)
  ultimately have "1 - 3 / 2 ^ 22 \<le> rmag ?L" "rmag ?L \<le> 1 + 3 / 2 ^ 22"
    using eps_eleven(1) by linarith+
  then have "(of_rat (1 - 3 / 2 ^ 22) :: real) \<le> of_rat (mag ?L)"
    "(of_rat (mag ?L) :: real) \<le> of_rat (1 + 3 / 2 ^ 22)"
    by (simp_all add: rmag_def of_rat_add of_rat_diff of_rat_divide of_rat_power)
  then have "1 - 3 / 2 ^ 22 \<le> mag ?L" "mag ?L \<le> 1 + 3 / 2 ^ 22"
    by (simp_all only: of_rat_less_eq)
  then show "\<bar>valof ?L - 1\<bar> \<le> 3 / 2 ^ 22"
    unfolding v by linarith
qed

lemma zero_square: "is_zero x \<Longrightarrow> x * x = 0"
  by (simp add: times_float_def fmul_def is_zero_def is_nan_def is_inf_def mag_def mant_def
      fround_def zero_float_def)

lemma normalize_zero:
  assumes "is_zero x" "is_zero y" "is_zero z"
  shows "is_nan (Vec3_x (Vec3_normalize (Vec3 x y z)))"
    and "is_nan (Vec3_y (Vec3_normalize (Vec3 x y z)))"
    and "is_nan (Vec3_z (Vec3_normalize (Vec3 x y z)))"
proof -
  have "Vec3_dot (Vec3 x y z) (Vec3 x y z) = 0"
    using assms by (simp add: Vec3_dot_def zero_square float_zero_arith)
  then have l: "Vec3_length (Vec3 x y z) = 0"
    by (simp add: Vec3_length_def fsqrt_def zero_facts)
  have "is_nan (c / 0)" if "is_zero c" for c :: float
    using that by (simp add: divide_float_def fdiv_def zero_facts default_nan_def is_nan_def)
  then show "is_nan (Vec3_x (Vec3_normalize (Vec3 x y z)))"
    and "is_nan (Vec3_y (Vec3_normalize (Vec3 x y z)))"
    and "is_nan (Vec3_z (Vec3_normalize (Vec3 x y z)))"
    using assms by (simp_all add: Vec3_normalize_def Vec3_div_def l)
qed

lemma normalize_products:
  "Float False 227 0 * Float False 227 0 = Float False 255 0"
  "Float False 53 4194304 * Float False 53 4194304 = Float False 0 4"
  "Float False 127 508855 * Float False 127 508855 = Float False 127 1048577"
  "Float False 127 8272063 * Float False 127 8272063 = Float False 128 8156328"
  "Float False 128 7075437 * Float False 128 7075437 = Float False 130 5865049"
  "Float False 124 6178825 * Float False 124 6178825 = Float False 122 4260100"
  "Float False 125 7503451 * Float False 125 7503451 = Float False 124 6664994"
  "Float False 126 6362029 * Float False 126 6362029 = Float False 126 4580248"
  "Float False 122 5506781 * Float False 122 5506781 = Float False 118 3119966"
  by code_simp+

lemma normalize_sums:
  "Float False 255 0 + 0 = Float False 255 0"
  "Float False 0 4 + 0 = Float False 0 4"
  "Float False 127 1048577 + 0 = Float False 127 1048577"
  "Float False 128 8156328 + Float False 130 5865049 = Float False 131 806338"
  "Float False 131 806338 + Float False 122 4260100 = Float False 131 831043"
  "Float False 124 6664994 + Float False 126 4580248 = Float False 126 8343648"
  "Float False 126 8343648 + Float False 118 3119966 = Float False 126 8388603"
  by code_simp+

lemma normalize_roots:
  "fsqrt (Float False 255 0) = Float False 255 0"
  "fsqrt 0 = 0"
  "fsqrt (Float False 0 4) = Float False 53 3474675"
  "fsqrt (Float False 127 1048577) = Float False 127 508855"
  "fsqrt (Float False 131 831043) = Float False 129 405711"
  "fsqrt (Float False 126 8388603) = Float False 126 8388605"
  by code_simp+

lemma normalize_quotients:
  "Float False 227 0 / Float False 255 0 = 0"
  "0 / Float False 255 0 = 0"
  "Float False 53 4194304 / Float False 53 3474675 = Float False 127 508855"
  "0 / Float False 53 3474675 = 0"
  "Float False 127 8272063 / Float False 129 405711 = Float False 125 7503451"
  "Float False 128 7075437 / Float False 129 405711 = Float False 126 6362029"
  "Float False 124 6178825 / Float False 129 405711 = Float False 122 5506781"
  by code_simp+

lemma normalize_scenarios:
  "Vec3_length normalize_big = Float False 255 0"
  "Vec3_length (Vec3_normalize normalize_big) = 0"
  "Vec3_length normalize_small = Float False 53 3474675"
  "Vec3_length (Vec3_normalize normalize_small) = Float False 127 508855"
  "Vec3_length normalize_rounded = Float False 129 405711"
  "Vec3_length (Vec3_normalize normalize_rounded) = Float False 126 8388605"
  by (simp_all add: normalize_big_def normalize_small_def normalize_rounded_def
      Vec3_normalize_def Vec3_div_def Vec3_length_def Vec3_dot_def float_zero_arith
      normalize_products normalize_sums normalize_roots normalize_quotients)

lemma normalize_values:
  "1 / 20 < \<bar>valof (Float False 127 508855) - 1\<bar>"
  "1 / 2 ^ 23 < \<bar>valof (Float False 126 8388605) - 1\<bar>"
  "mag (Float False 127 8272063) \<le> 2 ^ 60"
  "mag (Float False 128 7075437) \<le> 2 ^ 60"
  "mag (Float False 124 6178825) \<le> 2 ^ 60"
  "1 / 2 ^ 60 \<le> mag (Float False 127 8272063)"
  by code_simp+

section \<open>The claims\<close>

text \<open>
  C1 (as stated): \<open>Mat4::ortho(-1,1,-1,1,1,-1)\<close> has \<open>data[10] = -1\<close>. It does not: with
  \<open>near = 1\<close> and \<open>far = -1\<close> the entry is \<open>-2 / (far - near) = -2 / -2 = 1\<close>.
\<close>

theorem C1_ortho_entry_10_counterexample:
  "Mat4_data (ortho (- 1) 1 (- 1) 1 1 (- 1)) ! 10 = 1
   \<and> \<not> feq (Mat4_data (ortho (- 1) 1 (- 1) 1 1 (- 1)) ! 10) (- 1)"
  by code_simp

text \<open>
  C1 (amended): \<open>Mat4::ortho(-1,1,-1,1,1,-1)\<close> is the matrix with \<open>data[0] = 1\<close>,
  \<open>data[5] = 1\<close>, \<open>data[10] = 1\<close>, \<open>data[15] = 1\<close> and every other entry a zero: \<open>data[14]\<close>
  is \<open>0.0\<close>, \<open>data[12]\<close> and \<open>data[13]\<close> are \<open>-0.0\<close>, which compare equal to \<open>0.0\<close>. So the
  result compares equal, entry for entry, to \<open>Mat4::identity()\<close>.
\<close>

theorem C1_ortho_symmetric_box:
  "Mat4_data (ortho (- 1) 1 (- 1) 1 1 (- 1))
     = [1, 0, 0, 0,  0, 1, 0, 0,  0, 0, 1, 0,  - 0, - 0, 0, 1]
   \<and> list_all2 feq (Mat4_data (ortho (- 1) 1 (- 1) 1 1 (- 1))) (Mat4_data identity)"
  by code_simp

text \<open>
  C2: if \<open>determinant()\<close> of \<open>M\<close> compares equal to \<open>0.0f\<close>, then \<open>M.inverse()\<close> returns \<open>M\<close>
  itself (all sixteen entries) and leaves the receiver as it was. The model has no error
  value: the call always returns.
\<close>

theorem C2_inverse_of_singular:
  "feq (fst (determinant M)) 0 \<Longrightarrow> fst (inverse_Mat4 M) = M \<and> snd (inverse_Mat4 M) = M"
  by (simp add: inverse_Mat4_def Let_def determinant_def split: prod.splits)

theorem C2_inverse_of_singular_witness:
  "feq (fst (determinant Mat4_default)) 0
   \<and> fst (inverse_Mat4 Mat4_default) = Mat4_default
   \<and> snd (inverse_Mat4 Mat4_default) = Mat4_default"
proof -
  have h: "feq (fst (determinant Mat4_default)) 0"
    by (simp add: determinant_def Mat4_default_def Let_def float_zero_arith feq_refl zero_facts)
  from C2_inverse_of_singular [OF h] h show ?thesis by simp
qed

text \<open>
  C3 (as stated): \<open>v.normalize().length()\<close> is 1 within \<open>FLT_EPSILON = 2 ^ - 23\<close> for every \<open>v\<close>
  of non-zero length. It is not. For \<open>normalize_big\<close> the squared length overflows: the
  length is infinite, every component of \<open>normalize()\<close> is 0, and so is the length of the
  result. For \<open>normalize_small\<close> the squared length is rounded in the subnormal range: the
  length is not zero and the length of the result is 1.06. For \<open>normalize_rounded\<close> nothing
  overflows or underflows and the length of the result is \<open>1 - 3 * 2 ^ - 24\<close>, which is
  \<open>1.5 * 2 ^ - 23\<close> away from 1.
\<close>

theorem C3_normalize_counterexample:
  "is_inf (Vec3_length normalize_big)
   \<and> Vec3_length (Vec3_normalize normalize_big) = 0
   \<and> Vec3_length normalize_small = Float False 53 3474675
   \<and> 1 / 20 < \<bar>valof (Vec3_length (Vec3_normalize normalize_small)) - 1\<bar>
   \<and> Vec3_length normalize_rounded = Float False 129 405711
   \<and> 1 / 2 ^ 23 < \<bar>valof (Vec3_length (Vec3_normalize normalize_rounded)) - 1\<bar>"
  by (simp only: normalize_scenarios normalize_values) (simp add: is_inf_def)

text \<open>
  C3 (amended): if no component of \<open>v\<close> exceeds \<open>2 ^ 60\<close> in magnitude and at least one component
  is \<open>2 ^ - 60\<close> or more in magnitude, then \<open>v.normalize().length()\<close> is finite and within
  \<open>3 * 2 ^ - 22\<close>, that is \<open>6 * FLT_EPSILON\<close>, of 1. If the three components of \<open>v\<close> are zeros
  (of either sign), the three components of \<open>v.normalize()\<close> are NaNs: the division
  \<open>0 / 0\<close> is carried out, nothing guards it.
\<close>

theorem C3_normalize_length:
  "(mag (Vec3_x v) \<le> 2 ^ 60 \<and> mag (Vec3_y v) \<le> 2 ^ 60 \<and> mag (Vec3_z v) \<le> 2 ^ 60
      \<and> (1 / 2 ^ 60 \<le> mag (Vec3_x v) \<or> 1 / 2 ^ 60 \<le> mag (Vec3_y v)
           \<or> 1 / 2 ^ 60 \<le> mag (Vec3_z v))
     \<longrightarrow> is_finite (Vec3_length (Vec3_normalize v))
         \<and> \<bar>valof (Vec3_length (Vec3_normalize v)) - 1\<bar> \<le> 3 / 2 ^ 22)
   \<and> (is_zero (Vec3_x v) \<and> is_zero (Vec3_y v) \<and> is_zero (Vec3_z v)
     \<longrightarrow> is_nan (Vec3_x (Vec3_normalize v)) \<and> is_nan (Vec3_y (Vec3_normalize v))
         \<and> is_nan (Vec3_z (Vec3_normalize v)))"
proof (cases v)
  case (Vec3 x y z)
  show ?thesis
    unfolding Vec3 Vec3.sel
    using normalize_length_bound [of x y z] normalize_zero [of x y z] by blast
qed

theorem C3_normalize_length_witness:
  "mag (Vec3_x normalize_rounded) \<le> 2 ^ 60 \<and> mag (Vec3_y normalize_rounded) \<le> 2 ^ 60
   \<and> mag (Vec3_z normalize_rounded) \<le> 2 ^ 60 \<and> 1 / 2 ^ 60 \<le> mag (Vec3_x normalize_rounded)
   \<and> is_finite (Vec3_length (Vec3_normalize normalize_rounded))
   \<and> \<bar>valof (Vec3_length (Vec3_normalize normalize_rounded)) - 1\<bar> \<le> 3 / 2 ^ 22
   \<and> is_zero (Vec3_x (Vec3 0 0 0)) \<and> is_zero (Vec3_y (Vec3 0 0 0))
   \<and> is_zero (Vec3_z (Vec3 0 0 0))
   \<and> is_nan (Vec3_x (Vec3_normalize (Vec3 0 0 0)))
   \<and> is_nan (Vec3_y (Vec3_normalize (Vec3 0 0 0)))
   \<and> is_nan (Vec3_z (Vec3_normalize (Vec3 0 0 0)))"
proof -
  have h: "mag (Vec3_x normalize_rounded) \<le> 2 ^ 60" "mag (Vec3_y normalize_rounded) \<le> 2 ^ 60"
    "mag (Vec3_z normalize_rounded) \<le> 2 ^ 60" "1 / 2 ^ 60 \<le> mag (Vec3_x normalize_rounded)"
    by (simp_all only: normalize_rounded_def Vec3.sel normalize_values)
  have z: "is_zero (Vec3_x (Vec3 0 0 0))" "is_zero (Vec3_y (Vec3 0 0 0))"
    "is_zero (Vec3_z (Vec3 0 0 0))"
    by (simp_all add: zero_facts)
  from C3_normalize_length [of normalize_rounded] h
  have c1: "is_finite (Vec3_length (Vec3_normalize normalize_rounded))
      \<and> \<bar>valof (Vec3_length (Vec3_normalize normalize_rounded)) - 1\<bar> \<le> 3 / 2 ^ 22"
    by blast
  from C3_normalize_length [of "Vec3 0 0 0"] z
  have c2: "is_nan (Vec3_x (Vec3_normalize (Vec3 0 0 0)))
      \<and> is_nan (Vec3_y (Vec3_normalize (Vec3 0 0 0)))
      \<and> is_nan (Vec3_z (Vec3_normalize (Vec3 0 0 0)))"
    by blast
  from h z c1 c2 show ?thesis by blast
qed

text \<open>
  C4: for \<open>i, j\<close> in \<open>0..3\<close>, entry \<open>i*4+j\<close> of \<open>A * B\<close> is the sum over \<open>k = 0, 1, 2, 3\<close>, added
  in this order in float arithmetic, of \<open>A.data[i*4+k] * B.data[k*4+j]\<close>.
\<close>

theorem C4_product_entries:
  "i < 4 \<Longrightarrow> j < 4 \<Longrightarrow>
   Mat4_data (Mat4_mul A B) ! (i * 4 + j) =
       Mat4_data A ! (i * 4 + 0) * Mat4_data B ! (0 * 4 + j)
     + Mat4_data A ! (i * 4 + 1) * Mat4_data B ! (1 * 4 + j)
     + Mat4_data A ! (i * 4 + 2) * Mat4_data B ! (2 * 4 + j)
     + Mat4_data A ! (i * 4 + 3) * Mat4_data B ! (3 * 4 + j)"
proof -
  assume "i < 4" "j < 4"
  then have "i \<in> {0, 1, 2, 3}" "j \<in> {0, 1, 2, 3}"
    by (simp_all only: lt4_cases)
  then show ?thesis
    by (elim insertE emptyE) (simp_all add: Mat4_mul_entries Let_def eval_nat_numeral)
qed

theorem C4_product_entries_witness:
  "(1::nat) < 4 \<and> (2::nat) < 4
   \<and> Mat4_data (Mat4_mul identity (Mat4_of 1 0 0 0  0 1 0 0  0 0 1 0  1 1 1 1)) ! (1 * 4 + 2) =
       Mat4_data identity ! (1 * 4 + 0)
         * Mat4_data (Mat4_of 1 0 0 0  0 1 0 0  0 0 1 0  1 1 1 1) ! (0 * 4 + 2)
     + Mat4_data identity ! (1 * 4 + 1)
         * Mat4_data (Mat4_of 1 0 0 0  0 1 0 0  0 0 1 0  1 1 1 1) ! (1 * 4 + 2)
     + Mat4_data identity ! (1 * 4 + 2)
         * Mat4_data (Mat4_of 1 0 0 0  0 1 0 0  0 0 1 0  1 1 1 1) ! (2 * 4 + 2)
     + Mat4_data identity ! (1 * 4 + 3)
         * Mat4_data (Mat4_of 1 0 0 0  0 1 0 0  0 0 1 0  1 1 1 1) ! (3 * 4 + 2)"
proof -
  have h: "(1::nat) < 4" "(2::nat) < 4" by simp_all
  from C4_product_entries [OF h] h show ?thesis by blast
qed




text \<open>
  C6: rotating \<open>Vec3(1,0,0)\<close> by \<open>Quat::from_axis_angle(Vec3(0,0,1), \<pi>/2)\<close> gives about
  \<open>Vec3(0,1,0)\<close>. The angle is \<open>pi_half_f\<close>. Whenever the C library's \<open>sin\<close> and \<open>cos\<close> are
  within one unit in the last place (\<open>2 ^ - 24\<close>) of the true values at the half angle, the
  result \<open>(x, y, z)\<close> has \<open>|x| \<le> 3 * 2 ^ - 24\<close>, \<open>|y - 1| \<le> 2 ^ - 23\<close> and \<open>z\<close> a zero. When
  they are the nearest floats (within \<open>2 ^ - 25\<close>), the result is \<open>(0, 1 - 2 ^ - 24, 0)\<close>
  exactly, within \<open>FLT_EPSILON = 2 ^ - 23\<close>.
\<close>

theorem C6_quarter_turn:
  assumes "\<bar>of_rat (valof (libm_sin lm (pi_half_f / float_of_rat 2)))
             - sin (of_rat (valof (pi_half_f / float_of_rat 2)) :: real)\<bar> \<le> 1 / 2 ^ 24"
    and "\<bar>of_rat (valof (libm_cos lm (pi_half_f / float_of_rat 2)))
             - cos (of_rat (valof (pi_half_f / float_of_rat 2)) :: real)\<bar> \<le> 1 / 2 ^ 24"
  shows "\<bar>valof (Vec3_x (Quat_mul_Vec3 (from_axis_angle lm (Vec3 0 0 1) pi_half_f) (Vec3 1 0 0)))\<bar>
           \<le> 3 / 2 ^ 24
    \<and> \<bar>valof (Vec3_y (Quat_mul_Vec3 (from_axis_angle lm (Vec3 0 0 1) pi_half_f) (Vec3 1 0 0))) - 1\<bar>
           \<le> 2 / 2 ^ 24
    \<and> is_zero (Vec3_z (Quat_mul_Vec3 (from_axis_angle lm (Vec3 0 0 1) pi_half_f) (Vec3 1 0 0)))
    \<and> is_finite (Vec3_x (Quat_mul_Vec3 (from_axis_angle lm (Vec3 0 0 1) pi_half_f) (Vec3 1 0 0)))
    \<and> is_finite (Vec3_y (Quat_mul_Vec3 (from_axis_angle lm (Vec3 0 0 1) pi_half_f) (Vec3 1 0 0)))
    \<and> (\<bar>of_rat (valof (libm_sin lm (pi_half_f / float_of_rat 2)))
             - sin (of_rat (valof (pi_half_f / float_of_rat 2)) :: real)\<bar> \<le> 1 / 2 ^ 25
        \<and> \<bar>of_rat (valof (libm_cos lm (pi_half_f / float_of_rat 2)))
             - cos (of_rat (valof (pi_half_f / float_of_rat 2)) :: real)\<bar> \<le> 1 / 2 ^ 25
        \<longrightarrow> Vec3_x (Quat_mul_Vec3 (from_axis_angle lm (Vec3 0 0 1) pi_half_f) (Vec3 1 0 0)) = 0
          \<and> Vec3_y (Quat_mul_Vec3 (from_axis_angle lm (Vec3 0 0 1) pi_half_f) (Vec3 1 0 0))
              = Float False 126 8388607)"
proof -
  let ?S = "libm_sin lm (pi_half_f / float_of_rat 2)"
  let ?C = "libm_cos lm (pi_half_f / float_of_rat 2)"
  have S: "?S = half_sqrt2 \<or> ?S = half_sqrt2_up"
    using assms(1) unfolding real_half_angle by (rule sin_candidates)
  have C: "?C = half_sqrt2_dn \<or> ?C = half_sqrt2"
    using assms(2) unfolding real_half_angle by (rule cos_candidates)
  have q: "from_axis_angle lm (Vec3 0 0 1) pi_half_f = Quat (0 * ?S) (0 * ?S) (1 * ?S) ?C"
    by (simp add: from_axis_angle_def Let_def)
  have "Vec3_x (Quat_mul_Vec3 (Quat (0 * ?S) (0 * ?S) (1 * ?S) ?C) (Vec3 1 0 0)) = 0
      \<and> Vec3_y (Quat_mul_Vec3 (Quat (0 * ?S) (0 * ?S) (1 * ?S) ?C) (Vec3 1 0 0))
          = Float False 126 8388607"
    if "\<bar>of_rat (valof ?S) - sin half_angle_r\<bar> \<le> 1 / 2 ^ 25"
      and "\<bar>of_rat (valof ?C) - cos half_angle_r\<bar> \<le> 1 / 2 ^ 25"
    using sin_nearest [OF that(1)] cos_nearest [OF that(2)]
    by (simp add: rotate_b_b flip: zero_float_def)
  with rotate_candidates [OF S C] show ?thesis
    unfolding q real_half_angle by blast
qed

theorem C6_quarter_turn_witness:
  "\<bar>of_rat (valof (libm_sin libm_sample (pi_half_f / float_of_rat 2)))
             - sin (of_rat (valof (pi_half_f / float_of_rat 2)) :: real)\<bar> \<le> 1 / 2 ^ 25
   \<and> \<bar>of_rat (valof (libm_cos libm_sample (pi_half_f / float_of_rat 2)))
             - cos (of_rat (valof (pi_half_f / float_of_rat 2)) :: real)\<bar> \<le> 1 / 2 ^ 25
   \<and> Vec3_x (Quat_mul_Vec3 (from_axis_angle libm_sample (Vec3 0 0 1) pi_half_f) (Vec3 1 0 0)) = 0
   \<and> Vec3_y (Quat_mul_Vec3 (from_axis_angle libm_sample (Vec3 0 0 1) pi_half_f) (Vec3 1 0 0))
         = Float False 126 8388607
   \<and> is_zero
         (Vec3_z (Quat_mul_Vec3 (from_axis_angle libm_sample (Vec3 0 0 1) pi_half_f) (Vec3 1 0 0)))
   \<and> valof (Float False 126 8388607) = 1 - 1 / 2 ^ 24"
proof -
  have h: "\<bar>of_rat (valof (libm_sin libm_sample (pi_half_f / float_of_rat 2)))
             - sin (of_rat (valof (pi_half_f / float_of_rat 2)) :: real)\<bar> \<le> 1 / 2 ^ 24"
    "\<bar>of_rat (valof (libm_cos libm_sample (pi_half_f / float_of_rat 2)))
             - cos (of_rat (valof (pi_half_f / float_of_rat 2)) :: real)\<bar> \<le> 1 / 2 ^ 24"
    using libm_sample_accurate by simp_all
  from C6_quarter_turn [OF h] libm_sample_accurate show ?thesis
    by (simp add: candidate_values)
qed

text \<open>
  C7 (as stated): \<open>Mat4::identity() * M\<close> equals \<open>M\<close> entry for entry, for every \<open>M\<close>. It does
  not for an \<open>M\<close> with an infinite entry: with \<open>data[0]\<close> an infinity and zeros elsewhere,
  entry 4 of the product is \<open>0 * inf + 1 * 0 + 0 * 0 + 0 * 0\<close>, a NaN, where \<open>M\<close> has \<open>0.0\<close>.
\<close>

theorem C7_identity_product_counterexample:
  "Mat4_data (Mat4 (Float False 255 0 # replicate 15 0)) ! 4 = 0
   \<and> is_nan (Mat4_data (Mat4_mul identity (Mat4 (Float False 255 0 # replicate 15 0))) ! 4)
   \<and> \<not> feq (Mat4_data (Mat4_mul identity (Mat4 (Float False 255 0 # replicate 15 0))) ! 4)
           (Mat4_data (Mat4 (Float False 255 0 # replicate 15 0)) ! 4)"
proof -
  have n: "is_nan (0 * Float False 255 0)"
    by (simp add: times_float_def fmul_def zero_float_def is_nan_def is_inf_def is_zero_def
        default_nan_def)
  have "is_nan (Mat4_data (Mat4_mul identity (Mat4 (Float False 255 0 # replicate 15 0))) ! 4)"
    by (simp add: Mat4_mul_entries Let_def identity_data eval_nat_numeral n is_nan_fadd)
  then show ?thesis
    by (simp add: feq_def eval_nat_numeral)
qed

text \<open>
  C7 (amended): for every \<open>M\<close> whose sixteen entries are finite (no infinity, no NaN), each
  entry of \<open>Mat4::identity() * M\<close> and of \<open>M * Mat4::identity()\<close> compares equal (\<open>==\<close>) to
  the same entry of \<open>M\<close>.
\<close>

theorem C7_identity_product_finite:
  assumes wf: "Mat4_wf M" and fin: "list_all is_finite (Mat4_data M)" and i: "i < 16"
  shows "feq (Mat4_data (Mat4_mul identity M) ! i) (Mat4_data M ! i)
       \<and> feq (Mat4_data (Mat4_mul M identity) ! i) (Mat4_data M ! i)"
proof -
  have f: "is_finite (Mat4_data M ! k)" if "k < 16" for k
    using that wf fin by (simp add: Mat4_wf_def list_all_length)
  have fs: "is_finite (Mat4_data M ! 0)" "is_finite (Mat4_data M ! 1)"
    "is_finite (Mat4_data M ! 2)" "is_finite (Mat4_data M ! 3)"
    "is_finite (Mat4_data M ! 4)" "is_finite (Mat4_data M ! 5)"
    "is_finite (Mat4_data M ! 6)" "is_finite (Mat4_data M ! 7)"
    "is_finite (Mat4_data M ! 8)" "is_finite (Mat4_data M ! 9)"
    "is_finite (Mat4_data M ! 10)" "is_finite (Mat4_data M ! 11)"
    "is_finite (Mat4_data M ! 12)" "is_finite (Mat4_data M ! 13)"
    "is_finite (Mat4_data M ! 14)" "is_finite (Mat4_data M ! 15)"
    "is_finite (Mat4_data M ! Suc 0)"
    by (simp_all add: f)
  from lt16_cases [OF i] show ?thesis
    by (elim insertE emptyE)
      (simp_all add: Mat4_mul_entries Let_def identity_data fs row_left row_right)
qed

theorem C7_identity_product_finite_witness:
  "Mat4_wf (Mat4_of 1 0 0 0  0 1 0 0  0 0 1 0  1 1 1 1)
   \<and> list_all is_finite (Mat4_data (Mat4_of 1 0 0 0  0 1 0 0  0 0 1 0  1 1 1 1))
   \<and> (13::nat) < 16
   \<and> feq (Mat4_data (Mat4_mul identity (Mat4_of 1 0 0 0  0 1 0 0  0 0 1 0  1 1 1 1)) ! 13)
         (Mat4_data (Mat4_of 1 0 0 0  0 1 0 0  0 0 1 0  1 1 1 1) ! 13)
   \<and> feq (Mat4_data (Mat4_mul (Mat4_of 1 0 0 0  0 1 0 0  0 0 1 0  1 1 1 1) identity) ! 13)
         (Mat4_data (Mat4_of 1 0 0 0  0 1 0 0  0 0 1 0  1 1 1 1) ! 13)"
proof -
  have h1: "Mat4_wf (Mat4_of 1 0 0 0  0 1 0 0  0 0 1 0  1 1 1 1)"
    by (simp add: Mat4_wf_def Mat4_of_def)
  have h2: "list_all is_finite (Mat4_data (Mat4_of 1 0 0 0  0 1 0 0  0 0 1 0  1 1 1 1))"
    by (simp add: Mat4_of_def zero_facts one_facts)
  have h3: "(13::nat) < 16" by simp
  from C7_identity_product_finite [OF h1 h2 h3] h1 h2 h3 show ?thesis by blast
qed

text \<open>
  C8: \<open>M.translate(t)\<close> adds \<open>t.x\<close>, \<open>t.y\<close>, \<open>t.z\<close> onto \<open>data[12]\<close>, \<open>data[13]\<close>, \<open>data[14]\<close> and
  leaves the other thirteen entries as they are; \<open>M.scale(s)\<close> multiplies \<open>data[0]\<close>,
  \<open>data[5]\<close>, \<open>data[10]\<close> by \<open>s.x\<close>, \<open>s.y\<close>, \<open>s.z\<close> and leaves the other thirteen as they are.
\<close>

theorem C8_translate_scale_frame:
  "Mat4_wf M \<Longrightarrow>
   Mat4_data (translate M t) ! 12 = Mat4_data M ! 12 + Vec3_x t \<and>
   Mat4_data (translate M t) ! 13 = Mat4_data M ! 13 + Vec3_y t \<and>
   Mat4_data (translate M t) ! 14 = Mat4_data M ! 14 + Vec3_z t \<and>
   (\<forall>i<16. i \<notin> {12, 13, 14} \<longrightarrow> Mat4_data (translate M t) ! i = Mat4_data M ! i) \<and>
   Mat4_wf (translate M t) \<and>
   Mat4_data (scale M s) ! 0 = Mat4_data M ! 0 * Vec3_x s \<and>
   Mat4_data (scale M s) ! 5 = Mat4_data M ! 5 * Vec3_y s \<and>
   Mat4_data (scale M s) ! 10 = Mat4_data M ! 10 * Vec3_z s \<and>
   (\<forall>i<16. i \<notin> {0, 5, 10} \<longrightarrow> Mat4_data (scale M s) ! i = Mat4_data M ! i) \<and>
   Mat4_wf (scale M s)"
  by (simp add: translate_def scale_def Mat4_set_def Mat4_wf_def Let_def nth_list_update)

theorem C8_translate_scale_frame_witness:
  "Mat4_wf identity
   \<and> Mat4_data (translate identity (Vec3 1 0 1)) ! 12 = Mat4_data identity ! 12 + 1
   \<and> Mat4_data (translate identity (Vec3 1 0 1)) ! 5 = Mat4_data identity ! 5
   \<and> Mat4_data (scale identity (Vec3 0 1 1)) ! 0 = Mat4_data identity ! 0 * 0
   \<and> Mat4_data (scale identity (Vec3 0 1 1)) ! 12 = Mat4_data identity ! 12"
proof -
  have h: "Mat4_wf identity"
    by (simp add: Mat4_wf_def identity_data)
  from C8_translate_scale_frame [OF h, of "Vec3 1 0 1" "Vec3 0 1 1"] h show ?thesis
    by simp
qed

text \<open>
  C9: \<open>determinant()\<close>, \<open>transpose()\<close>, \<open>cofactor()\<close> and \<open>inverse()\<close> leave the receiver as it
  was: after each call \<open>*this\<close> is the matrix it was before.
\<close>

theorem C9_queries_keep_receiver:
  "snd (determinant M) = M \<and> snd (transpose_Mat4 M) = M \<and> snd (cofactor M) = M
   \<and> snd (inverse_Mat4 M) = M"
  by (simp add: determinant_def transpose_Mat4_def cofactor_def inverse_Mat4_def Let_def
      split: prod.splits)

theorem C9_queries_keep_receiver_witness:
  "snd (determinant identity) = identity \<and> snd (transpose_Mat4 identity) = identity
   \<and> snd (cofactor identity) = identity \<and> snd (inverse_Mat4 identity) = identity"
  by (rule C9_queries_keep_receiver)

text \<open>
  C10: the \<open>w\<close> component of \<open>q * v\<close>, for a \<open>Vec4 v\<close>, is \<open>1.0f\<close>, and the result does not
  depend on \<open>v.w\<close>: two vectors with the same \<open>x\<close>, \<open>y\<close>, \<open>z\<close> give the same result.
\<close>

theorem C10_quat_times_Vec4:
  "Vec4_w (Quat_mul_Vec4 q v) = 1
   \<and> Quat_mul_Vec4 q (Vec4 x y z w1) = Quat_mul_Vec4 q (Vec4 x y z w2)"
  by (simp add: Quat_mul_Vec4_def Let_def)

theorem C10_quat_times_Vec4_witness:
  "Vec4_w (Quat_mul_Vec4 (Quat 0 0 0 1) (Vec4 1 0 0 0)) = 1
   \<and> Quat_mul_Vec4 (Quat 0 0 0 1) (Vec4 1 0 0 0) = Quat_mul_Vec4 (Quat 0 0 0 1) (Vec4 1 0 0 1)"
  by (rule C10_quat_times_Vec4)

end
